theory Spec2Isabelle
  imports Complex_Main "HOL-Library.AList" "HOL-Library.Sublist"
begin

section \<open>The Updater of the UV highlight overlay (main.py)\<close>

text \<open>
  The class \<^verbatim>\<open>Updater\<close> of \<^verbatim>\<open>main.py\<close> is embedded with explicit state passing.
  Python dictionaries are association lists in insertion order (\<open>AList.update\<close>
  replaces the value of a present key in place and appends an absent key, as a
  Python \<^verbatim>\<open>dict\<close> does). Every \<^verbatim>\<open>KeyError\<close> the source can raise is a branch of the
  model; a function that raises returns the error together with the state as it
  was mutated up to the raise, since the Updater object outlives the exception.
  Times are Python floats: a float is the real number it stands for, and every
  float operation of the source rounds its exact result to the nearest double.
\<close>

subsection \<open>Dictionaries and errors\<close>

type_synonym ('k, 'v) dict = "('k \<times> 'v) list"

datatype py_error = KeyError string | ValueError

definition dict_keys :: "('k, 'v) dict \<Rightarrow> 'k list" where
  "dict_keys d = map fst d"

subsection \<open>Python floats\<close>

text \<open>
  A Python float is an IEEE 754 binary64 number. \<open>round_double\<close> rounds a real number
  to the nearest number with a 53-bit significand, ties to the even significand;
  overflow and subnormal numbers are out of the reach of a clock and are not
  modelled. \<open>exponent x\<close> is the binary exponent of a positive \<open>x\<close>, and \<open>ulp x\<close> the
  distance between neighbouring doubles at \<open>x\<close>. \<open>fadd\<close> is the \<^verbatim>\<open>+\<close> of two floats;
  \<open>float_0_1\<close> and \<open>float_0_01\<close> are the literals \<^verbatim>\<open>0.1\<close> and \<^verbatim>\<open>0.01\<close>.
\<close>

function ilog2 :: "int \<Rightarrow> int" where
  "ilog2 n = (if n < 2 then 0 else 1 + ilog2 (n div 2))"
  by pat_completeness auto
termination
  by (relation "measure nat") auto

declare ilog2.simps [simp del]

definition exponent :: "real \<Rightarrow> int" where
  "exponent x =
     (if 1 \<le> x then ilog2 \<lfloor>x\<rfloor>
      else - (1 + ilog2 (\<lceil>1 / x\<rceil> - 1)))"

definition round_half_even :: "real \<Rightarrow> int" where
  "round_half_even z =
     (let f = \<lfloor>z\<rfloor>; r = z - of_int f
      in if r < 1 / 2 then f else if 1 / 2 < r then f + 1 else if even f then f else f + 1)"

definition ulp :: "real \<Rightarrow> real" where
  "ulp x = 2 powi (exponent x - 52)"

definition round_double :: "real \<Rightarrow> real" where
  "round_double x =
     (if x = 0 then 0
      else let a = \<bar>x\<bar>; q = 2 powi (exponent a - 52)
           in sgn x * (q * of_int (round_half_even (a / q))))"

definition fadd :: "real \<Rightarrow> real \<Rightarrow> real" where
  "fadd a b = round_double (a + b)"

definition float_0_1 :: real where "float_0_1 = round_double (1 / 10)"
definition float_0_01 :: real where "float_0_01 = round_double (1 / 100)"

subsection \<open>What the host application shows to the Updater\<close>

text \<open>
  A scene object is seen through its \<^verbatim>\<open>name\<close> and \<^verbatim>\<open>type\<close>; an entry of
  \<^verbatim>\<open>screen.areas\<close> through \<^verbatim>\<open>type\<close> and \<^verbatim>\<open>ui_type\<close>; an entry of
  \<^verbatim>\<open>window_manager.operators\<close> through its identity and \<^verbatim>\<open>bl_idname\<close>.
  \<open>host\<close> is \<^verbatim>\<open>bpy.context\<close> and the clock as one heartbeat or one notification
  reads them. \<open>perf_counter\<close> is the clock in seconds; \<^verbatim>\<open>time.perf_counter()\<close> returns it
  as a float, \<open>now\<close>.
\<close>

record obj =
  obj_name :: string
  obj_type :: string

record area =
  area_type :: string
  area_ui_type :: string

record operator =
  op_ident :: nat
  bl_idname :: string

record host =
  active_object :: "obj option"
  selected_objects :: "obj list"
  scene_uv_select_mode :: string
  areas :: "area list"
  operators :: "operator list"
  perf_counter :: real

definition now :: "host \<Rightarrow> real" where
  "now h = round_double (perf_counter h)"

text \<open>
  A depsgraph update: \<^verbatim>\<open>update.id\<close> may be missing, and an ID may have no
  attribute \<^verbatim>\<open>type\<close> (\<open>id_type = None\<close>).
\<close>

record ID =
  id_name :: string
  id_type :: "string option"

record depsgraph_update =
  upd_id :: "ID option"
  is_updated_geometry :: bool

subsection \<open>The collaborators\<close>

text \<open>
  The modules \<^verbatim>\<open>mesh\<close> and \<^verbatim>\<open>render\<close> are not part of \<^verbatim>\<open>main.py\<close>; the two
  renderers are handed to the constructor of the Updater. Their operations are
  parameters of the model: \<open>'s\<close> is the state of a \<^verbatim>\<open>mesh.Data\<close> snapshot, \<open>'r\<close>
  the state of a renderer. \<open>Data_update\<close> is \<^verbatim>\<open>mesh.Data.update(obj, selectionOnly)\<close>,
  which returns whether something changed and mutates the snapshot.
\<close>

record ('s, 'r) collab =
  Data_new :: 's
  Data_update :: "'s \<Rightarrow> obj \<Rightarrow> bool \<Rightarrow> bool \<times> 's"
  view3d_update :: "'r \<Rightarrow> 's \<Rightarrow> 'r"
  view3d_disable :: "'r \<Rightarrow> 'r"
  view3d_enabled :: "'r \<Rightarrow> bool"
  view3d_set_mode :: "'r \<Rightarrow> string \<Rightarrow> 'r"
  uv_update :: "'r \<Rightarrow> 's \<Rightarrow> 'r"
  uv_disable :: "'r \<Rightarrow> 'r"

text \<open>
  Every call that leaves the Updater is appended to \<open>calls\<close>, oldest first.
  \<open>MeshUpdate id selectionOnly changed\<close> is a call of \<^verbatim>\<open>mesh_data[id].update\<close>
  with its result.
\<close>

datatype event =
    WatchMouse
  | StartTimer
  | TagRedraw
  | MeshUpdate string bool bool
  | View3dUpdate string
  | UvUpdate string
  | View3dDisable
  | UvDisable
  | View3dMode string
  | HandlerAppend
  | HandlerRemove

datatype handler = UpdaterHandler | OtherHandler nat

subsection \<open>The state of the Updater\<close>

text \<open>
  The fields of \<^verbatim>\<open>Updater.__init__\<close> that the modelled methods use
  (\<^verbatim>\<open>mouse_update\<close> and \<^verbatim>\<open>mouse_position\<close> are never read or written by them),
  the host's list \<^verbatim>\<open>bpy.app.handlers.depsgraph_update_post\<close>, and the calls made.
\<close>

record ('s, 'r) updater =
  renderer_view3d :: 'r
  renderer_uv :: 'r
  timer_running :: bool
  uv_select_mode :: string
  mesh_data :: "(string, 's) dict"
  last_update :: "(string, real) dict"
  op :: "operator option"
  uv_editor_visible :: bool
  depsgraph_update_post :: "handler list"
  calls :: "event list"

definition init :: "'r \<Rightarrow> 'r \<Rightarrow> handler list \<Rightarrow> ('s, 'r) updater" where
  "init renderer_view3d0 renderer_uv0 hs =
     \<lparr> renderer_view3d = renderer_view3d0,
       renderer_uv = renderer_uv0,
       timer_running = False,
       uv_select_mode = ''VERTEX'',
       mesh_data = [],
       last_update = [],
       op = None,
       uv_editor_visible = False,
       depsgraph_update_post = hs,
       calls = [] \<rparr>"

definition emit :: "event \<Rightarrow> ('s, 'r) updater \<Rightarrow> ('s, 'r) updater" where
  "emit e s = s\<lparr>calls := calls s @ [e]\<rparr>"

subsection \<open>start and stop\<close>

definition start :: "('s, 'r) updater \<Rightarrow> ('s, 'r) updater" where
  "start s = emit HandlerAppend (s\<lparr>depsgraph_update_post := depsgraph_update_post s @ [UpdaterHandler]\<rparr>)"

text \<open>\<^verbatim>\<open>list.remove(x)\<close> removes the first \<open>x\<close> and raises \<^verbatim>\<open>ValueError\<close> when there is none.\<close>

definition list_remove :: "'a \<Rightarrow> 'a list \<Rightarrow> py_error + 'a list" where
  "list_remove x xs = (if x \<in> set xs then Inr (remove1 x xs) else Inl ValueError)"

definition stop :: "('s, 'r) collab \<Rightarrow> ('s, 'r) updater \<Rightarrow> py_error option \<times> ('s, 'r) updater" where
  "stop c s =
     (let s1 = emit UvDisable (s\<lparr>renderer_uv := uv_disable c (renderer_uv s)\<rparr>);
          s2 = emit View3dDisable (s1\<lparr>renderer_view3d := view3d_disable c (renderer_view3d s1)\<rparr>);
          s3 = s2\<lparr>timer_running := False\<rparr>;
          s4 = emit HandlerRemove s3
      in case list_remove UpdaterHandler (depsgraph_update_post s4) of
           Inl e \<Rightarrow> (None, s4)
         | Inr hs \<Rightarrow> (None, s4\<lparr>depsgraph_update_post := hs\<rparr>))"

subsection \<open>get_active_objects and free\<close>

definition get_active_objects :: "host \<Rightarrow> (string, obj) dict" where
  "get_active_objects h =
     fold (\<lambda>selected_obj active_objects. AList.update (obj_name selected_obj) selected_obj active_objects)
       (selected_objects h) []"

fun free_loop :: "string list \<Rightarrow> ('s, 'r) updater \<Rightarrow> py_error option \<times> ('s, 'r) updater" where
  "free_loop [] s = (None, s)"
| "free_loop (ident # obsolete) s =
     (if ident \<notin> set (dict_keys (last_update s)) then (Some (KeyError ident), s)
      else let s1 = s\<lparr>last_update := AList.delete ident (last_update s)\<rparr> in
        if ident \<notin> set (dict_keys (mesh_data s1)) then (Some (KeyError ident), s1)
        else free_loop obsolete (s1\<lparr>mesh_data := AList.delete ident (mesh_data s1)\<rparr>))"

definition free :: "host \<Rightarrow> ('s, 'r) updater \<Rightarrow> py_error option \<times> ('s, 'r) updater" where
  "free h s =
     (let active_objects = get_active_objects h;
          obsolete = filter (\<lambda>ident. ident \<notin> set (dict_keys active_objects)) (dict_keys (mesh_data s))
      in free_loop obsolete s)"

subsection \<open>The handlers of a heartbeat\<close>

definition push :: "('s, 'r) collab \<Rightarrow> string \<Rightarrow> 's \<Rightarrow> bool \<Rightarrow> ('s, 'r) updater \<Rightarrow> ('s, 'r) updater" where
  "push c ident md redraw s =
     (let s1 = emit (View3dUpdate ident) (s\<lparr>renderer_view3d := view3d_update c (renderer_view3d s) md\<rparr>);
          s2 = emit (UvUpdate ident) (s1\<lparr>renderer_uv := uv_update c (renderer_uv s1) md\<rparr>)
      in if redraw then emit TagRedraw s2 else s2)"

definition refresh :: "('s, 'r) collab \<Rightarrow> string \<Rightarrow> 's \<Rightarrow> obj \<Rightarrow> bool \<Rightarrow> bool \<Rightarrow> ('s, 'r) updater \<Rightarrow> ('s, 'r) updater" where
  "refresh c ident md ob selection_only redraw s =
     (let (changed, md') = Data_update c md ob selection_only;
          s1 = emit (MeshUpdate ident selection_only changed)
                 (s\<lparr>mesh_data := AList.update ident md' (mesh_data s)\<rparr>)
      in if changed then push c ident md' redraw s1 else s1)"

fun id_updates_loop ::
  "('s, 'r) collab \<Rightarrow> real \<Rightarrow> (string, obj) dict \<Rightarrow> (string \<times> real) list \<Rightarrow> bool \<Rightarrow> ('s, 'r) updater
     \<Rightarrow> (py_error + bool) \<times> ('s, 'r) updater" where
  "id_updates_loop c t active_objects [] result s = (Inr result, s)"
| "id_updates_loop c t active_objects ((ident, lu) # rest) result s =
     (if t > lu \<and> lu > 0 then
        (let s1 = s\<lparr>last_update := AList.update ident (- 1) (last_update s)\<rparr> in
         case map_of (mesh_data s1) ident of
           None \<Rightarrow> (Inl (KeyError ident), s1)
         | Some md \<Rightarrow>
            (case map_of active_objects ident of
               None \<Rightarrow> (Inl (KeyError ident), s1)
             | Some ob \<Rightarrow> id_updates_loop c t active_objects rest True (refresh c ident md ob False True s1)))
      else id_updates_loop c t active_objects rest result s)"

definition handle_id_updates ::
  "('s, 'r) collab \<Rightarrow> host \<Rightarrow> (string, obj) dict \<Rightarrow> ('s, 'r) updater \<Rightarrow> (py_error + bool) \<times> ('s, 'r) updater" where
  "handle_id_updates c h active_objects s =
     id_updates_loop c (now h) active_objects (last_update s) False s"

fun selection_loop ::
  "('s, 'r) collab \<Rightarrow> (string, obj) dict \<Rightarrow> (string \<times> 's) list \<Rightarrow> ('s, 'r) updater \<Rightarrow> py_error option \<times> ('s, 'r) updater" where
  "selection_loop c active_objects [] s = (None, s)"
| "selection_loop c active_objects ((ident, md) # rest) s =
     (case map_of active_objects ident of
        None \<Rightarrow> (Some (KeyError ident), s)
      | Some ob \<Rightarrow> selection_loop c active_objects rest (refresh c ident md ob True False s))"

definition handle_selection_changed_ops ::
  "('s, 'r) collab \<Rightarrow> host \<Rightarrow> (string, obj) dict \<Rightarrow> ('s, 'r) updater \<Rightarrow> (py_error + bool) \<times> ('s, 'r) updater" where
  "handle_selection_changed_ops c h active_objects s =
     (if length (operators h) = 0 then (Inr False, s)
      else let op' = last (operators h) in
        if Some op' \<noteq> op s then
          (let s1 = s\<lparr>op := Some op'\<rparr> in
           if prefix ''UV_OT_select'' (bl_idname op') then
             (case selection_loop c active_objects (mesh_data s1) s1 of
                (Some e, s2) \<Rightarrow> (Inl e, s2)
              | (None, s2) \<Rightarrow> (Inr True, s2))
           else (Inr True, s1))
        else (Inr False, s))"

definition uv_editor_visibility :: "host \<Rightarrow> bool" where
  "uv_editor_visibility h =
     list_ex (\<lambda>a. area_type a = ''IMAGE_EDITOR'' \<and> area_ui_type a = ''UV'') (areas h)"

fun visibility_loop ::
  "('s, 'r) collab \<Rightarrow> (string \<times> obj) list \<Rightarrow> ('s, 'r) updater \<Rightarrow> py_error option \<times> ('s, 'r) updater" where
  "visibility_loop c [] s = (None, s)"
| "visibility_loop c ((ident, ob) # rest) s =
     (case map_of (mesh_data s) ident of
        None \<Rightarrow> (Some (KeyError ident), s)
      | Some md \<Rightarrow> visibility_loop c rest (refresh c ident md ob False True s))"

definition disable_view3d :: "('s, 'r) collab \<Rightarrow> ('s, 'r) updater \<Rightarrow> ('s, 'r) updater" where
  "disable_view3d c s =
     emit TagRedraw (emit View3dDisable (s\<lparr>renderer_view3d := view3d_disable c (renderer_view3d s)\<rparr>))"

definition handle_uv_edtitor_visibility_changed ::
  "('s, 'r) collab \<Rightarrow> host \<Rightarrow> (string, obj) dict \<Rightarrow> ('s, 'r) updater \<Rightarrow> (py_error + bool) \<times> ('s, 'r) updater" where
  "handle_uv_edtitor_visibility_changed c h active_objects s =
     (let visibility = uv_editor_visibility h in
      if uv_editor_visible s = visibility then
        (if \<not> uv_editor_visible s then
           (if view3d_enabled c (renderer_view3d s) then (Inr False, disable_view3d c s)
            else (Inr False, s))
         else (Inr False, s))
      else
        (let s1 = s\<lparr>uv_editor_visible := visibility\<rparr> in
         if uv_editor_visible s1 then
           (case visibility_loop c active_objects s1 of
              (Some e, s2) \<Rightarrow> (Inl e, s2)
            | (None, s2) \<Rightarrow> (Inr True, s2))
         else (Inr True, disable_view3d c s1)))"

subsection \<open>heartbeat\<close>

definition sync_select_mode :: "('s, 'r) collab \<Rightarrow> host \<Rightarrow> ('s, 'r) updater \<Rightarrow> ('s, 'r) updater" where
  "sync_select_mode c h s =
     (let m = scene_uv_select_mode h in
      if m \<noteq> uv_select_mode s then
        emit TagRedraw (emit (View3dMode m)
          (s\<lparr>uv_select_mode := m, renderer_view3d := view3d_set_mode c (renderer_view3d s) m\<rparr>))
      else s)"

fun lazy_init :: "('s, 'r) collab \<Rightarrow> string list \<Rightarrow> ('s, 'r) updater \<Rightarrow> ('s, 'r) updater" where
  "lazy_init c [] s = s"
| "lazy_init c (ident # rest) s =
     (if ident \<notin> set (dict_keys (mesh_data s)) then
        lazy_init c rest
          (s\<lparr>mesh_data := AList.update ident (Data_new c) (mesh_data s),
             last_update := AList.update ident (- 1) (last_update s)\<rparr>)
      else lazy_init c rest s)"

text \<open>Lines 67 to 80 of \<^verbatim>\<open>heartbeat\<close>: free, the selection mode, the new snapshots.\<close>

definition reconcile :: "('s, 'r) collab \<Rightarrow> host \<Rightarrow> ('s, 'r) updater \<Rightarrow> py_error option \<times> ('s, 'r) updater" where
  "reconcile c h s =
     (case free h s of
        (Some e, s1) \<Rightarrow> (Some e, s1)
      | (None, s1) \<Rightarrow>
         (None, lazy_init c (dict_keys (get_active_objects h)) (sync_select_mode c h s1)))"

text \<open>Lines 82 to 90 of \<^verbatim>\<open>heartbeat\<close>: the three handlers, each ending the tick when it returns True.\<close>

definition heartbeat_handlers ::
  "('s, 'r) collab \<Rightarrow> host \<Rightarrow> (string, obj) dict \<Rightarrow> ('s, 'r) updater \<Rightarrow> py_error option \<times> ('s, 'r) updater" where
  "heartbeat_handlers c h active_objects s =
     (case handle_uv_edtitor_visibility_changed c h active_objects s of
        (Inl e, s1) \<Rightarrow> (Some e, s1)
      | (Inr True, s1) \<Rightarrow> (None, s1)
      | (Inr False, s1) \<Rightarrow>
         (case handle_id_updates c h active_objects s1 of
            (Inl e, s2) \<Rightarrow> (Some e, s2)
          | (Inr True, s2) \<Rightarrow> (None, s2)
          | (Inr False, s2) \<Rightarrow>
             (case handle_selection_changed_ops c h active_objects s2 of
                (Inl e, s3) \<Rightarrow> (Some e, s3)
              | (Inr r, s3) \<Rightarrow> (None, s3))))"

definition heartbeat :: "('s, 'r) collab \<Rightarrow> host \<Rightarrow> ('s, 'r) updater \<Rightarrow> py_error option \<times> ('s, 'r) updater" where
  "heartbeat c h s =
     (let s0 = emit WatchMouse s in
      case active_object h of
        None \<Rightarrow> (None, s0)
      | Some ob \<Rightarrow>
         if obj_type ob \<noteq> ''MESH'' then (None, s0)
         else
           (case reconcile c h s0 of
              (Some e, s1) \<Rightarrow> (Some e, s1)
            | (None, s1) \<Rightarrow> heartbeat_handlers c h (get_active_objects h) s1))"

subsection \<open>The depsgraph handler\<close>

definition can_skip_depsgraph :: "host \<Rightarrow> depsgraph_update \<Rightarrow> bool" where
  "can_skip_depsgraph h u =
     (case upd_id u of
        None \<Rightarrow> True
      | Some i \<Rightarrow>
         if \<not> is_updated_geometry u then True
         else (case id_type i of
                 None \<Rightarrow> True
               | Some ty \<Rightarrow>
                  if ty \<noteq> ''MESH'' then True
                  else \<not> list_ex (\<lambda>name. name = id_name i) (dict_keys (get_active_objects h))))"

text \<open>
  One pass of the loop body of \<^verbatim>\<open>depsgraph_handler\<close> (lines 205 to 216) for the
  update \<open>u\<close>, where \<open>clock\<close> is the clock in that pass and \<open>t\<close> the float that
  \<^verbatim>\<open>time.perf_counter()\<close> returns for it. The handler is given \<^verbatim>\<open>depsgraph.updates\<close> as
  a list, each update paired with the clock of its pass; the first call only starts
  the timer.
\<close>

definition handle_update :: "host \<Rightarrow> real \<Rightarrow> depsgraph_update \<Rightarrow> ('s, 'r) updater \<Rightarrow> py_error option \<times> ('s, 'r) updater" where
  "handle_update h clock u s =
     (if can_skip_depsgraph h u then (None, s)
      else case upd_id u of
        None \<Rightarrow> (None, s)
      | Some i \<Rightarrow>
         (let s1 = (if id_name i \<notin> set (dict_keys (last_update s))
                    then s\<lparr>last_update := AList.update (id_name i) (- 1) (last_update s)\<rparr> else s);
              t = round_double clock
          in case map_of (last_update s1) (id_name i) of
               None \<Rightarrow> (Some (KeyError (id_name i)), s1)
             | Some lu \<Rightarrow>
                if t < lu \<and> lu > 0
                then (None, s1\<lparr>last_update := AList.update (id_name i) (fadd t float_0_1) (last_update s1)\<rparr>)
                else (None, s1\<lparr>last_update := AList.update (id_name i) (fadd t float_0_01) (last_update s1)\<rparr>)))"

fun depsgraph_loop :: "host \<Rightarrow> (depsgraph_update \<times> real) list \<Rightarrow> ('s, 'r) updater \<Rightarrow> py_error option \<times> ('s, 'r) updater" where
  "depsgraph_loop h [] s = (None, s)"
| "depsgraph_loop h ((u, t) # rest) s =
     (case handle_update h t u s of
        (Some e, s1) \<Rightarrow> (Some e, s1)
      | (None, s1) \<Rightarrow> depsgraph_loop h rest s1)"

definition depsgraph_handler :: "host \<Rightarrow> (depsgraph_update \<times> real) list \<Rightarrow> ('s, 'r) updater \<Rightarrow> py_error option \<times> ('s, 'r) updater" where
  "depsgraph_handler h updates s =
     (if \<not> timer_running s then (None, emit StartTimer (s\<lparr>timer_running := True\<rparr>))
      else depsgraph_loop h updates s)"

subsection \<open>The invariant of the two mappings, and what a forced refresh calls\<close>

text \<open>
  \<open>keys_inv\<close>: every identity with a snapshot has a timestamp, and no key occurs twice
  (the association lists stand for dictionaries).
\<close>

definition keys_inv :: "('s, 'r) updater \<Rightarrow> bool" where
  "keys_inv s \<longleftrightarrow>
     set (dict_keys (mesh_data s)) \<subseteq> set (dict_keys (last_update s))
     \<and> distinct (dict_keys (mesh_data s)) \<and> distinct (dict_keys (last_update s))"

text \<open>
  What the refresh of one active object with \<^verbatim>\<open>selectionOnly = False\<close> calls, read off
  the snapshots of the state \<open>s\<close>: the update of the snapshot and, when it reports a
  change, the push to both renderers and the request to redraw.
\<close>

definition forced_refresh_calls :: "('s, 'r) collab \<Rightarrow> ('s, 'r) updater \<Rightarrow> string \<times> obj \<Rightarrow> event list" where
  "forced_refresh_calls c s item =
     (case item of (ident, ob) \<Rightarrow>
        (case map_of (mesh_data s) ident of
           None \<Rightarrow> []
         | Some md \<Rightarrow>
            MeshUpdate ident False (fst (Data_update c md ob False))
              # (if fst (Data_update c md ob False) then [View3dUpdate ident, UvUpdate ident, TagRedraw] else [])))"

text \<open>
  What \<open>handle_id_updates\<close> calls for one entry of the timestamps at time \<open>t\<close>: the
  forced refresh of that object when the entry is due, nothing otherwise.
\<close>

definition due_refresh_calls ::
  "('s, 'r) collab \<Rightarrow> real \<Rightarrow> (string, obj) dict \<Rightarrow> ('s, 'r) updater \<Rightarrow> string \<times> real \<Rightarrow> event list" where
  "due_refresh_calls c t active_objects s item =
     (case item of (ident, lu) \<Rightarrow>
        if t > lu \<and> lu > 0 then
          (case map_of active_objects ident of
             None \<Rightarrow> []
           | Some ob \<Rightarrow> forced_refresh_calls c s (ident, ob))
        else [])"

subsection \<open>Executions\<close>

text \<open>
  The states the Updater can be in: the constructor, then any sequence of calls of
  \<^verbatim>\<open>start\<close>, \<^verbatim>\<open>stop\<close>, \<^verbatim>\<open>heartbeat\<close> and \<^verbatim>\<open>depsgraph_handler\<close>, with whatever the
  host shows at each call. A call that raises leaves the state it had reached.
\<close>

inductive reachable :: "('s, 'r) collab \<Rightarrow> ('s, 'r) updater \<Rightarrow> bool" for c :: "('s, 'r) collab" where
  reach_init: "reachable c (init renderer_view3d0 renderer_uv0 hs)"
| reach_start: "reachable c s \<Longrightarrow> reachable c (start s)"
| reach_stop: "reachable c s \<Longrightarrow> reachable c (snd (stop c s))"
| reach_heartbeat: "reachable c s \<Longrightarrow> reachable c (snd (heartbeat c h s))"
| reach_depsgraph: "reachable c s \<Longrightarrow> reachable c (snd (depsgraph_handler h updates s))"

subsection \<open>Collaborators and scenes for the concrete runs\<close>

text \<open>
  Two pairs of renderers over the same snapshots (a snapshot counts its refreshes,
  and every refresh reports a change). The state of a renderer is its flag
  \<^verbatim>\<open>enabled\<close>. With \<open>passive_collab\<close> a renderer's \<^verbatim>\<open>update\<close> leaves the flag as it
  is; with \<open>enabling_collab\<close> it switches the renderer on.
\<close>

definition passive_collab :: "(nat, bool) collab" where
  "passive_collab =
     \<lparr> Data_new = 0,
       Data_update = (\<lambda>md ob selection_only. (True, Suc md)),
       view3d_update = (\<lambda>r md. r),
       view3d_disable = (\<lambda>r. False),
       view3d_enabled = (\<lambda>r. r),
       view3d_set_mode = (\<lambda>r m. r),
       uv_update = (\<lambda>r md. r),
       uv_disable = (\<lambda>r. False) \<rparr>"


definition cube :: obj where
  "cube = \<lparr> obj_name = ''Cube'', obj_type = ''MESH'' \<rparr>"

definition plane :: obj where
  "plane = \<lparr> obj_name = ''Plane'', obj_type = ''MESH'' \<rparr>"

text \<open>
  A scene with the given active object and selection, the UV editor open or not,
  no operator run yet, and the clock at \<open>t\<close>.
\<close>

definition scene :: "obj option \<Rightarrow> obj list \<Rightarrow> bool \<Rightarrow> real \<Rightarrow> host" where
  "scene act sel uv_open t =
     \<lparr> active_object = act,
       selected_objects = sel,
       scene_uv_select_mode = ''VERTEX'',
       areas = (if uv_open then [\<lparr> area_type = ''IMAGE_EDITOR'', area_ui_type = ''UV'' \<rparr>] else []),
       operators = [],
       perf_counter = t \<rparr>"

definition geometry_update :: "string \<Rightarrow> depsgraph_update" where
  "geometry_update name =
     \<lparr> upd_id = Some \<lparr> id_name = name, id_type = Some ''MESH'' \<rparr>, is_updated_geometry = True \<rparr>"

text \<open>A fresh Updater whose timer runs already and whose timestamps are \<open>d\<close>.\<close>

definition pending :: "(string, real) dict \<Rightarrow> (nat, bool) updater" where
  "pending d = (init False False []) \<lparr> timer_running := True, last_update := d \<rparr>"

definition camera :: obj where
  "camera = \<lparr> obj_name = ''Camera'', obj_type = ''CAMERA'' \<rparr>"

text \<open>
  The Updater after the notification that starts the timer and one notification of
  a geometry update of the selected mesh \<^verbatim>\<open>Plane\<close> at time 5, while the active object is
  a camera: no heartbeat has seen \<^verbatim>\<open>Plane\<close> yet.
\<close>

definition orphan_state :: "(nat, bool) updater" where
  "orphan_state =
     snd (depsgraph_handler (scene (Some camera) [plane, camera] False 5) [(geometry_update ''Plane'', 5)]
       (snd (depsgraph_handler (scene (Some camera) [plane, camera] False 5) [] (init False False []))))"

text \<open>
  The Updater after one heartbeat that sees the mesh \<^verbatim>\<open>Cube\<close>, the notification that
  starts the timer, and one notification of a geometry update of \<^verbatim>\<open>Cube\<close> at time 5.
\<close>

definition due_state :: "(nat, bool) collab \<Rightarrow> (nat, bool) updater" where
  "due_state c =
     snd (depsgraph_handler (scene (Some cube) [cube] False 5) [(geometry_update ''Cube'', 5)]
       (snd (depsgraph_handler (scene (Some cube) [cube] False 5) []
         (snd (heartbeat c (scene (Some cube) [cube] False 1) (init False False []))))))"

section \<open>Properties\<close>

subsection \<open>Rounding to the nearest double\<close>

lemma ilog2_bounds:
  "1 \<le> n \<Longrightarrow> 0 \<le> ilog2 n \<and> 2 ^ nat (ilog2 n) \<le> n \<and> n < 2 ^ nat (ilog2 n + 1)"
proof (induction n rule: ilog2.induct)
  case (1 n)
  show ?case
  proof (cases "n < 2")
    case True
    with "1.prems" have "n = 1" by simp
    then show ?thesis by (simp add: ilog2.simps)
  next
    case False
    then have "1 \<le> n div 2" by simp
    from "1.IH" [OF False this]
    have ih: "0 \<le> ilog2 (n div 2)" "2 ^ nat (ilog2 (n div 2)) \<le> n div 2"
      "n div 2 < 2 ^ nat (ilog2 (n div 2) + 1)" by simp_all
    have eq: "ilog2 n = 1 + ilog2 (n div 2)"
      using False by (subst ilog2.simps) simp
    have n1: "nat (1 + ilog2 (n div 2)) = Suc (nat (ilog2 (n div 2)))"
      using ih(1) by simp
    have n2: "nat (1 + ilog2 (n div 2) + 1) = Suc (Suc (nat (ilog2 (n div 2))))"
      using ih(1) by simp
    have n3: "nat (ilog2 (n div 2) + 1) = Suc (nat (ilog2 (n div 2)))"
      using ih(1) by simp
    have lo: "2 * 2 ^ nat (ilog2 (n div 2)) \<le> n"
      using ih(2) by linarith
    have hi: "n < 2 * (2 * 2 ^ nat (ilog2 (n div 2)))"
      using ih(3) unfolding n3 by simp
    show ?thesis
      unfolding eq n1 n2 using ih(1) lo hi by simp
  qed
qed

lemma two_powi_neg: "0 \<le> k \<Longrightarrow> (2::real) powi (- k) = 1 / 2 ^ nat k"
  by (simp add: power_int_minus_divide power_int_nonneg_exp)

lemma exponent_bounds:
  assumes "0 < x"
  shows "2 powi exponent x \<le> x \<and> x < 2 powi (exponent x + 1)"
proof (cases "1 \<le> x")
  case True
  let ?n = "\<lfloor>x\<rfloor>"
  have n: "1 \<le> ?n" using True by simp
  note b = ilog2_bounds [OF n]
  have e: "exponent x = ilog2 ?n" using True by (simp add: exponent_def)
  have "(2::real) powi ilog2 ?n = of_int (2 ^ nat (ilog2 ?n))"
    using b by (simp add: power_int_def)
  also have "\<dots> \<le> of_int ?n" using b by (simp only: of_int_le_iff)
  also have "\<dots> \<le> x" by simp
  finally have lo: "2 powi exponent x \<le> x" unfolding e .
  have "?n + 1 \<le> 2 ^ nat (ilog2 ?n + 1)" using b by simp
  then have "of_int (?n + 1) \<le> (of_int (2 ^ nat (ilog2 ?n + 1)) :: real)"
    by (simp only: of_int_le_iff)
  moreover have "x < of_int (?n + 1)" by simp
  moreover have "(of_int (2 ^ nat (ilog2 ?n + 1)) :: real) = 2 powi (ilog2 ?n + 1)"
    using b by (simp add: power_int_def)
  ultimately have "x < 2 powi (exponent x + 1)" unfolding e by linarith
  with lo show ?thesis by simp
next
  case False
  then have x1: "x < 1" by simp
  let ?m = "\<lceil>1 / x\<rceil> - 1"
  have inv: "1 < 1 / x" using assms x1 by simp
  then have "1 < \<lceil>1 / x\<rceil>" by (simp add: less_ceiling_iff)
  then have m: "1 \<le> ?m" by simp
  note b = ilog2_bounds [OF m]
  let ?k = "1 + ilog2 ?m"
  have e: "exponent x = - ?k" using False by (simp add: exponent_def)
  have k0: "0 \<le> ilog2 ?m" using b by simp
  have up: "1 / x \<le> of_int (?m + 1)" by simp
  have "?m + 1 \<le> 2 ^ nat ?k" using b by (simp add: add.commute)
  then have "(of_int (?m + 1) :: real) \<le> of_int (2 ^ nat ?k)" by (simp only: of_int_le_iff)
  also have "\<dots> = 2 ^ nat ?k" by simp
  finally have "(of_int (?m + 1) :: real) \<le> 2 ^ nat ?k" .
  with up have "1 / x \<le> 2 ^ nat ?k" by (rule order_trans)
  then have "1 \<le> 2 ^ nat ?k * x" using assms by (simp add: field_simps)
  then have "1 / 2 ^ nat ?k \<le> x" by (simp add: field_simps)
  moreover have "(2::real) powi (- ?k) = 1 / 2 ^ nat ?k"
    using k0 by (intro two_powi_neg) simp
  ultimately have lo: "2 powi exponent x \<le> x" unfolding e by simp
  have "of_int ?m < 1 / x" by (simp add: less_ceiling_iff [symmetric]) linarith
  moreover have "(of_int (2 ^ nat (ilog2 ?m)) :: real) \<le> of_int ?m"
    using b by (simp only: of_int_le_iff)
  moreover have "(of_int (2 ^ nat (ilog2 ?m)) :: real) = 2 ^ nat (ilog2 ?m)" by simp
  ultimately have "2 ^ nat (ilog2 ?m) < 1 / x" by linarith
  then have "2 ^ nat (ilog2 ?m) * x < 1" using assms by (simp add: field_simps)
  then have "x < 1 / 2 ^ nat (ilog2 ?m)" by (simp add: field_simps)
  moreover have "(2::real) powi (- ?k + 1) = 1 / 2 ^ nat (ilog2 ?m)"
  proof -
    have "- ?k + 1 = - ilog2 ?m" by simp
    then show ?thesis using two_powi_neg [OF k0] by simp
  qed
  ultimately have "x < 2 powi (exponent x + 1)" unfolding e by simp
  with lo show ?thesis by simp
qed

lemma exponent_unique:
  assumes "0 < x" and "2 powi k \<le> x" and "x < 2 powi (k + 1)"
  shows "exponent x = k"
proof -
  from exponent_bounds [OF assms(1)]
  have lo: "2 powi exponent x \<le> x" and hi: "x < 2 powi (exponent x + 1)" by simp_all
  have "(2::real) powi exponent x < 2 powi (k + 1)" using lo assms(3) by simp
  have a: "exponent x < k + 1"
  proof (rule ccontr)
    assume "\<not> exponent x < k + 1"
    then have "k + 1 \<le> exponent x" by simp
    then have "(2::real) powi (k + 1) \<le> 2 powi exponent x"
      by (rule power_int_increasing) simp
    with \<open>(2::real) powi exponent x < 2 powi (k + 1)\<close> show False by simp
  qed
  have "(2::real) powi k < 2 powi (exponent x + 1)" using hi assms(2) by simp
  have b: "k < exponent x + 1"
  proof (rule ccontr)
    assume "\<not> k < exponent x + 1"
    then have "exponent x + 1 \<le> k" by simp
    then have "(2::real) powi (exponent x + 1) \<le> 2 powi k"
      by (rule power_int_increasing) simp
    with \<open>(2::real) powi k < 2 powi (exponent x + 1)\<close> show False by simp
  qed
  from a b show ?thesis by simp
qed


lemma round_half_even_cases:
  "round_half_even z = \<lfloor>z\<rfloor> \<and> z - of_int \<lfloor>z\<rfloor> \<le> 1 / 2
   \<or> round_half_even z = \<lfloor>z\<rfloor> + 1 \<and> 1 / 2 \<le> z - of_int \<lfloor>z\<rfloor>"
  by (auto simp: round_half_even_def Let_def)


lemma round_half_even_of_int [simp]: "round_half_even (of_int n) = n"
  by (simp add: round_half_even_def)

lemma round_half_even_mono:
  assumes "z \<le> w"
  shows "round_half_even z \<le> round_half_even w"
proof (cases "\<lfloor>z\<rfloor> = \<lfloor>w\<rfloor>")
  case True
  with assms show ?thesis
    by (auto simp: round_half_even_def Let_def)
next
  case False
  with assms have "\<lfloor>z\<rfloor> < \<lfloor>w\<rfloor>"
    by (simp add: floor_mono order.not_eq_order_implies_strict)
  moreover have "round_half_even z \<le> \<lfloor>z\<rfloor> + 1" "\<lfloor>w\<rfloor> \<le> round_half_even w"
    using round_half_even_cases [of z] round_half_even_cases [of w] by auto
  ultimately show ?thesis by linarith
qed

lemma round_half_even_ge: "of_int n \<le> z \<Longrightarrow> n \<le> round_half_even z"
  using round_half_even_mono [of "of_int n" z] by simp

lemma round_half_even_le: "z \<le> of_int n \<Longrightarrow> round_half_even z \<le> n"
  using round_half_even_mono [of z "of_int n"] by simp

lemma ulp_pos [simp]: "0 < ulp x"
  by (simp add: ulp_def)

lemma ulp_nonzero [simp]: "ulp x \<noteq> 0"
  using ulp_pos [of x] by linarith

lemma ulp_nonneg [simp]: "0 \<le> ulp x"
  using ulp_pos [of x] by linarith

lemma two_powi_split: "(2::real) powi e = 2 powi (e - 52) * 2 ^ 52"
proof -
  have "(2::real) powi ((e - 52) + 52) = 2 powi (e - 52) * 2 powi 52"
    by (rule power_int_add) simp
  then show ?thesis by simp
qed

lemma two_powi_Suc: "(2::real) powi (e + 1) = 2 * 2 powi e"
  by (simp add: power_int_add)

lemma round_double_pos:
  "0 < x \<Longrightarrow> round_double x = ulp x * of_int (round_half_even (x / ulp x))"
  by (simp add: round_double_def ulp_def Let_def)

lemma round_double_neg:
  "x < 0 \<Longrightarrow> round_double x = - round_double (- x)"
  by (simp add: round_double_def Let_def)

lemma round_double_0 [simp]: "round_double 0 = 0"
  by (simp add: round_double_def)

lemma mantissa_bounds:
  assumes "0 < x"
  shows "2 ^ 52 \<le> x / ulp x \<and> x / ulp x < 2 ^ 53"
proof -
  from exponent_bounds [OF assms]
  have lo: "2 powi exponent x \<le> x" and hi: "x < 2 powi (exponent x + 1)" by simp_all
  have a: "ulp x * 2 ^ 52 \<le> x"
    using lo two_powi_split [of "exponent x"] by (simp add: ulp_def)
  have b: "x < ulp x * 2 ^ 53"
    using hi two_powi_split [of "exponent x"] by (simp add: ulp_def two_powi_Suc)
  from a b show ?thesis
    by (simp add: pos_le_divide_eq pos_divide_less_eq mult.commute)
qed

lemma round_double_bounds:
  assumes "0 < x"
  shows "2 powi exponent x \<le> round_double x \<and> round_double x \<le> 2 powi (exponent x + 1)"
proof -
  from mantissa_bounds [OF assms]
  have "(of_int (2 ^ 52) :: real) \<le> x / ulp x" and "x / ulp x \<le> of_int (2 ^ 53)" by simp_all
  then have "2 ^ 52 \<le> round_half_even (x / ulp x)" and "round_half_even (x / ulp x) \<le> 2 ^ 53"
    by (simp_all only: round_half_even_ge round_half_even_le)
  then have "(of_int (2 ^ 52) :: real) \<le> of_int (round_half_even (x / ulp x))"
    and "(of_int (round_half_even (x / ulp x)) :: real) \<le> of_int (2 ^ 53)"
    by (simp_all only: of_int_le_iff)
  then have "ulp x * 2 ^ 52 \<le> round_double x" and "round_double x \<le> ulp x * 2 ^ 53"
    unfolding round_double_pos [OF assms] by simp_all
  then show ?thesis
    using two_powi_split [of "exponent x"] by (simp add: ulp_def two_powi_Suc)
qed

lemma round_double_pos_pos: "0 < x \<Longrightarrow> 0 < round_double x"
  using round_double_bounds [of x] zero_less_power_int [of "2::real" "exponent x"]
  by linarith

lemma exponent_mono:
  assumes "0 < x" and "x \<le> y"
  shows "exponent x \<le> exponent y"
proof (rule ccontr)
  assume "\<not> exponent x \<le> exponent y"
  then have "exponent y + 1 \<le> exponent x" by simp
  then have "(2::real) powi (exponent y + 1) \<le> 2 powi exponent x"
    by (rule power_int_increasing) simp
  moreover have "2 powi exponent x \<le> x" using exponent_bounds [OF assms(1)] by simp
  moreover have "y < 2 powi (exponent y + 1)" using exponent_bounds [of y] assms by simp
  ultimately show False using assms(2) by linarith
qed

lemma round_double_mono_pos:
  assumes "0 < x" and "x \<le> y"
  shows "round_double x \<le> round_double y"
proof -
  have y: "0 < y" using assms by simp
  from exponent_mono [OF assms] consider "exponent x = exponent y" | "exponent x + 1 \<le> exponent y"
    by linarith
  then show ?thesis
  proof cases
    case 1
    then have u: "ulp x = ulp y" by (simp add: ulp_def)
    have "x / ulp y \<le> y / ulp y"
      using assms(2) less_imp_le [OF ulp_pos] by (rule divide_right_mono)
    then have "round_half_even (x / ulp y) \<le> round_half_even (y / ulp y)"
      by (rule round_half_even_mono)
    then have "(of_int (round_half_even (x / ulp y)) :: real) \<le> of_int (round_half_even (y / ulp y))"
      by (simp only: of_int_le_iff)
    then show ?thesis
      unfolding round_double_pos [OF assms(1)] round_double_pos [OF y] u by simp
  next
    case 2
    then have "(2::real) powi (exponent x + 1) \<le> 2 powi exponent y"
      by (rule power_int_increasing) simp
    with round_double_bounds [OF assms(1)] round_double_bounds [OF y] show ?thesis
      by linarith
  qed
qed

lemma round_double_mono:
  assumes "x \<le> y"
  shows "round_double x \<le> round_double y"
proof -
  consider "0 < x" | "x \<le> 0" "0 < y" | "x < 0" "y = 0" | "x = 0" "y = 0" | "y < 0"
    using assms by linarith
  then show ?thesis
  proof cases
    case 1
    then show ?thesis using assms by (rule round_double_mono_pos)
  next
    case 2
    have "round_double x \<le> 0"
    proof (cases "x = 0")
      case True
      then show ?thesis by simp
    next
      case False
      with 2 have "x < 0" by simp
      then show ?thesis
        using round_double_pos_pos [of "- x"] by (simp add: round_double_neg)
    qed
    with round_double_pos_pos [OF 2(2)] show ?thesis by linarith
  next
    case 3
    then show ?thesis
      using round_double_pos_pos [of "- x"] by (simp add: round_double_neg)
  next
    case 4
    then show ?thesis by simp
  next
    case 5
    then have x: "x < 0" using assms by simp
    have "round_double (- y) \<le> round_double (- x)"
      using 5 assms by (intro round_double_mono_pos) simp_all
    then show ?thesis
      by (simp add: round_double_neg [OF x] round_double_neg [OF 5])
  qed
qed

lemma round_double_idem_pos:
  assumes "0 < x"
  shows "round_double (round_double x) = round_double x"
proof -
  let ?n = "round_half_even (x / ulp x)"
  let ?y = "round_double x"
  have y: "0 < ?y" using assms by (rule round_double_pos_pos)
  have yq: "?y = ulp x * of_int ?n" using assms by (rule round_double_pos)
  from round_double_bounds [OF assms]
  have lo: "2 powi exponent x \<le> ?y" and hi: "?y \<le> 2 powi (exponent x + 1)" by simp_all
  show ?thesis
  proof (cases "?y < 2 powi (exponent x + 1)")
    case True
    from exponent_unique [OF y lo True] have "ulp ?y = ulp x" by (simp add: ulp_def)
    then have "round_double ?y = ulp x * of_int (round_half_even (?y / ulp x))"
      using round_double_pos [OF y] by simp
    also have "?y / ulp x = of_int ?n" unfolding yq using ulp_pos [of x] by simp
    finally show ?thesis unfolding yq [symmetric] by (simp add: yq)
  next
    case False
    with hi have eq: "?y = 2 powi (exponent x + 1)" by simp
    have "?y < 2 powi (exponent x + 1 + 1)"
      unfolding eq by (rule power_int_strict_increasing) simp_all
    with eq have e: "exponent ?y = exponent x + 1"
      by (intro exponent_unique [OF y]) simp_all
    have "?y / ulp ?y = of_int (2 ^ 52)"
      unfolding ulp_def e using two_powi_split [of "exponent x + 1"] eq by simp
    then have "round_half_even (?y / ulp ?y) = 2 ^ 52"
      by (simp only: round_half_even_of_int)
    then have "round_double ?y = ulp ?y * 2 ^ 52"
      using round_double_pos [OF y] by simp
    also have "\<dots> = ?y"
      unfolding ulp_def e using two_powi_split [of "exponent x + 1"] eq by simp
    finally show ?thesis .
  qed
qed

lemma round_double_idem [simp]: "round_double (round_double x) = round_double x"
proof -
  consider "0 < x" | "x = 0" | "x < 0" by linarith
  then show ?thesis
  proof cases
    case 1
    then show ?thesis by (rule round_double_idem_pos)
  next
    case 2
    then show ?thesis by simp
  next
    case 3
    then have p: "0 < round_double (- x)" by (intro round_double_pos_pos) simp
    then have n: "- round_double (- x) < 0" by simp
    show ?thesis
      unfolding round_double_neg [OF 3] round_double_neg [OF n]
      using round_double_idem_pos [of "- x"] 3 by simp
  qed
qed


lemma fadd_ge_left:
  assumes "0 \<le> b"
  shows "round_double a \<le> fadd (round_double a) b"
proof -
  have "round_double (round_double a) \<le> round_double (round_double a + b)"
    using assms by (intro round_double_mono) simp
  then show ?thesis by (simp add: fadd_def)
qed



lemma float_0_01_value: "float_0_01 = 5764607523034235 / 2 ^ 59"
  by code_simp

lemma float_0_01_nonneg: "0 \<le> float_0_01"
  by (simp add: float_0_01_value)










lemma round_double_5 [simp]: "round_double 5 = 5"
  by code_simp

lemma round_double_6 [simp]: "round_double 6 = 6"
  by code_simp

subsection \<open>The active objects\<close>

lemma keys_fold_update:
  "set (dict_keys (fold (\<lambda>ob d. AList.update (obj_name ob) ob d) xs d0))
     = set (dict_keys d0) \<union> obj_name ` set xs"
  by (induction xs arbitrary: d0) (auto simp: dict_keys_def AList.dom_update)

lemma keys_get_active_objects:
  "set (dict_keys (get_active_objects h)) = obj_name ` set (selected_objects h)"
  using keys_fold_update [of "selected_objects h" "[]"]
  by (simp add: get_active_objects_def dict_keys_def)



lemma key_of_map_of: "map_of d k = Some v \<Longrightarrow> k \<in> set (dict_keys d)"
  by (auto simp: dict_keys_def dest!: map_of_SomeD intro!: image_eqI [where x = "(k, v)"])

subsection \<open>The depsgraph handler\<close>

text \<open>The test of \<open>can_skip_depsgraph\<close>, in the words of the filtering rule.\<close>

lemma can_skip_iff:
  "can_skip_depsgraph h u \<longleftrightarrow>
     (upd_id u = None \<or> \<not> is_updated_geometry u \<or>
      (\<exists>i. upd_id u = Some i \<and>
         (id_type i = None \<or> id_type i \<noteq> Some ''MESH''
            \<or> id_name i \<notin> obj_name ` set (selected_objects h))))"
  unfolding can_skip_depsgraph_def list_ex_iff keys_get_active_objects
  by (auto split: option.splits)

text \<open>
  C3. A change record whose entity is absent, that is not a geometry update, whose
  entity has no kind or a kind other than mesh, or whose entity's name is not among
  the selected objects, is skipped: processing it raises nothing and leaves the
  mapping of pending timestamps exactly as it was.
\<close>

theorem skipped_update_keeps_last_update:
  assumes "upd_id u = None \<or> \<not> is_updated_geometry u \<or>
      (\<exists>i. upd_id u = Some i \<and>
         (id_type i = None \<or> id_type i \<noteq> Some ''MESH''
            \<or> id_name i \<notin> obj_name ` set (selected_objects h)))"
  shows "fst (handle_update h t u s) = None
     \<and> last_update (snd (handle_update h t u s)) = last_update s"
proof -
  from assms have "can_skip_depsgraph h u"
    by (simp only: can_skip_iff)
  then show ?thesis
    by (simp add: handle_update_def)
qed

theorem skipped_update_keeps_last_update_witness:
  "fst (handle_update (scene (Some cube) [cube] False 6) 6 (geometry_update ''Plane'')
          (pending [(''Cube'', 7)])) = None
   \<and> last_update (snd (handle_update (scene (Some cube) [cube] False 6) 6 (geometry_update ''Plane'')
          (pending [(''Cube'', 7)]))) = [(''Cube'', 7)]"
  using skipped_update_keeps_last_update
    [of "geometry_update ''Plane''" "scene (Some cube) [cube] False 6" 6 "pending [(''Cube'', 7)]"]
  by (simp add: geometry_update_def scene_def cube_def pending_def)




text \<open>
  C7. For an identity with no entry among the pending timestamps, processing one
  record that is not skipped at the float time \<open>t\<close> stores the due time \<^verbatim>\<open>t + 0.01\<close> (a
  float sum), which is not before \<open>t\<close>.
\<close>

theorem fresh_identity_due_now_or_later:
  assumes "\<not> can_skip_depsgraph h u" and "upd_id u = Some i"
    and "id_name i \<notin> set (dict_keys (last_update s))"
  shows "fst (handle_update h clock u s) = None
     \<and> map_of (last_update (snd (handle_update h clock u s))) (id_name i)
         = Some (fadd (round_double clock) float_0_01)
     \<and> round_double clock \<le> fadd (round_double clock) float_0_01"
  using assms fadd_ge_left [OF float_0_01_nonneg, of clock]
  by (simp add: handle_update_def AList.update_conv')

theorem fresh_identity_due_now_or_later_witness:
  "\<not> can_skip_depsgraph (scene (Some cube) [cube] False 6) (geometry_update ''Cube'')
   \<and> map_of (last_update (snd (handle_update (scene (Some cube) [cube] False 6) 6
        (geometry_update ''Cube'') (pending [])))) ''Cube'' = Some (fadd 6 float_0_01)
   \<and> (6 :: real) \<le> fadd 6 float_0_01"
  using fresh_identity_due_now_or_later
    [of "scene (Some cube) [cube] False 6" "geometry_update ''Cube''"
        "\<lparr> id_name = ''Cube'', id_type = Some ''MESH'' \<rparr>" "pending []" 6]
  by (simp add: can_skip_depsgraph_def geometry_update_def scene_def cube_def
      get_active_objects_def dict_keys_def pending_def)

subsection \<open>stop\<close>

text \<open>
  C10. \<^verbatim>\<open>stop\<close> never raises, whether or not the handler is in the host's
  list: it disables the UV renderer, then the 3D renderer, clears the flag of the
  timer and only then tries to remove the handler; a handler that is not there
  leaves the list as it was.
\<close>

theorem stop_never_raises:
  "fst (stop c s) = None
   \<and> timer_running (snd (stop c s)) = False
   \<and> renderer_uv (snd (stop c s)) = uv_disable c (renderer_uv s)
   \<and> renderer_view3d (snd (stop c s)) = view3d_disable c (renderer_view3d s)
   \<and> calls (snd (stop c s)) = calls s @ [UvDisable, View3dDisable, HandlerRemove]
   \<and> depsgraph_update_post (snd (stop c s)) = remove1 UpdaterHandler (depsgraph_update_post s)"
  by (simp add: stop_def list_remove_def emit_def Let_def remove1_idem)

subsection \<open>Fields that a step leaves alone\<close>

lemma keys_update_present:
  "k \<in> set (dict_keys d) \<Longrightarrow> dict_keys (AList.update k v d) = dict_keys d"
  by (simp add: dict_keys_def AList.update_keys)

lemma keys_update_absent:
  "k \<notin> set (dict_keys d) \<Longrightarrow> dict_keys (AList.update k v d) = dict_keys d @ [k]"
  by (simp add: dict_keys_def AList.update_keys)

lemma keys_delete: "dict_keys (AList.delete k d) = removeAll k (dict_keys d)"
  by (simp add: dict_keys_def AList.delete_keys)

lemma emit_fields [simp]:
  "mesh_data (emit e s) = mesh_data s" "last_update (emit e s) = last_update s"
  "renderer_view3d (emit e s) = renderer_view3d s" "renderer_uv (emit e s) = renderer_uv s"
  "timer_running (emit e s) = timer_running s" "uv_select_mode (emit e s) = uv_select_mode s"
  "op (emit e s) = op s" "uv_editor_visible (emit e s) = uv_editor_visible s"
  "depsgraph_update_post (emit e s) = depsgraph_update_post s"
  "calls (emit e s) = calls s @ [e]"
  by (simp_all add: emit_def)

lemma push_fields [simp]:
  "mesh_data (push c k md rd s) = mesh_data s" "last_update (push c k md rd s) = last_update s"
  "timer_running (push c k md rd s) = timer_running s" "uv_select_mode (push c k md rd s) = uv_select_mode s"
  "op (push c k md rd s) = op s" "uv_editor_visible (push c k md rd s) = uv_editor_visible s"
  "depsgraph_update_post (push c k md rd s) = depsgraph_update_post s"
  by (simp_all add: push_def Let_def)

lemma push_calls:
  "calls (push c k md rd s) = calls s @ [View3dUpdate k, UvUpdate k] @ (if rd then [TagRedraw] else [])"
  by (simp add: push_def Let_def)

lemma refresh_fields [simp]:
  "last_update (refresh c k md ob sel rd s) = last_update s"
  "timer_running (refresh c k md ob sel rd s) = timer_running s"
  "uv_select_mode (refresh c k md ob sel rd s) = uv_select_mode s"
  "op (refresh c k md ob sel rd s) = op s"
  "uv_editor_visible (refresh c k md ob sel rd s) = uv_editor_visible s"
  "depsgraph_update_post (refresh c k md ob sel rd s) = depsgraph_update_post s"
  by (simp_all add: refresh_def Let_def split: prod.splits)

lemma refresh_mesh_data:
  "mesh_data (refresh c k md ob sel rd s) = AList.update k (snd (Data_update c md ob sel)) (mesh_data s)"
  by (simp add: refresh_def Let_def split: prod.splits)

lemma refresh_calls:
  "calls (refresh c k md ob sel rd s) =
     calls s @ MeshUpdate k sel (fst (Data_update c md ob sel))
       # (if fst (Data_update c md ob sel)
          then [View3dUpdate k, UvUpdate k] @ (if rd then [TagRedraw] else []) else [])"
  by (simp add: refresh_def Let_def push_calls split: prod.splits)

lemma refresh_keys:
  "map_of (mesh_data s) k = Some md
     \<Longrightarrow> dict_keys (mesh_data (refresh c k md ob sel rd s)) = dict_keys (mesh_data s)"
  by (simp add: refresh_mesh_data keys_update_present key_of_map_of)

lemma disable_view3d_fields [simp]:
  "mesh_data (disable_view3d c s) = mesh_data s" "last_update (disable_view3d c s) = last_update s"
  "calls (disable_view3d c s) = calls s @ [View3dDisable, TagRedraw]"
  "renderer_view3d (disable_view3d c s) = view3d_disable c (renderer_view3d s)"
  "op (disable_view3d c s) = op s"
  "uv_editor_visible (disable_view3d c s) = uv_editor_visible s"
  by (simp_all add: disable_view3d_def)

lemma sync_select_mode_fields [simp]:
  "mesh_data (sync_select_mode c h s) = mesh_data s"
  "last_update (sync_select_mode c h s) = last_update s"
  "uv_editor_visible (sync_select_mode c h s) = uv_editor_visible s"
  "op (sync_select_mode c h s) = op s"
  by (simp_all add: sync_select_mode_def Let_def)

lemma set_keys_update: "set (dict_keys (AList.update k v d)) = insert k (set (dict_keys d))"
  by (auto simp: dict_keys_def AList.dom_update)

lemma map_of_keys_Some: "k \<in> set (dict_keys d) \<Longrightarrow> \<exists>v. map_of d k = Some v"
  by (cases "map_of d k") (auto simp: dict_keys_def map_of_eq_None_iff)

subsection \<open>The keys of the two mappings through the handlers of a heartbeat\<close>

text \<open>
  The loop of \<open>handle_id_updates\<close> is unfolded by the two lemmas below, one for an
  entry that is due and one for an entry that is not.
\<close>

lemma id_updates_loop_skip:
  "\<not> (t > lu \<and> lu > 0)
     \<Longrightarrow> id_updates_loop c t act ((k, lu) # rest) res s = id_updates_loop c t act rest res s"
  by auto

lemma id_updates_loop_due:
  "t > lu \<Longrightarrow> lu > 0 \<Longrightarrow>
   id_updates_loop c t act ((k, lu) # rest) res s =
     (case map_of (mesh_data s) k of
        None \<Rightarrow> (Inl (KeyError k), s\<lparr>last_update := AList.update k (- 1) (last_update s)\<rparr>)
      | Some md \<Rightarrow>
         (case map_of act k of
            None \<Rightarrow> (Inl (KeyError k), s\<lparr>last_update := AList.update k (- 1) (last_update s)\<rparr>)
          | Some ob \<Rightarrow> id_updates_loop c t act rest True
              (refresh c k md ob False True (s\<lparr>last_update := AList.update k (- 1) (last_update s)\<rparr>))))"
  by (simp add: Let_def)

declare id_updates_loop.simps(2) [simp del]

lemma id_updates_loop_keys:
  "fst ` set items \<subseteq> set (dict_keys (last_update s))
     \<Longrightarrow> dict_keys (mesh_data (snd (id_updates_loop c t act items res s))) = dict_keys (mesh_data s)
       \<and> dict_keys (last_update (snd (id_updates_loop c t act items res s))) = dict_keys (last_update s)"
proof (induction items arbitrary: res s)
  case Nil
  then show ?case by simp
next
  case (Cons p items)
  obtain k lu where p: "p = (k, lu)" by (cases p)
  from Cons.prems p have k: "k \<in> set (dict_keys (last_update s))"
    and rest: "fst ` set items \<subseteq> set (dict_keys (last_update s))" by auto
  show ?case
  proof (cases "t > lu \<and> lu > 0")
    case False
    with Cons.IH [OF rest] p show ?thesis by (simp add: id_updates_loop_skip)
  next
    case True
    then have due: "t > lu" "lu > 0" by simp_all
    note unf = id_updates_loop_due [OF due]
    let ?s1 = "s\<lparr>last_update := AList.update k (- 1) (last_update s)\<rparr>"
    have k1: "dict_keys (last_update ?s1) = dict_keys (last_update s)"
      using k by (simp add: keys_update_present)
    show ?thesis
    proof (cases "map_of (mesh_data s) k")
      case None
      with p k1 show ?thesis by (simp add: unf)
    next
      case (Some md)
      show ?thesis
      proof (cases "map_of act k")
        case None
        with p k1 \<open>map_of (mesh_data s) k = Some md\<close> show ?thesis by (simp add: unf)
      next
        case (Some ob)
        let ?s2 = "refresh c k md ob False True ?s1"
        have m2: "dict_keys (mesh_data ?s2) = dict_keys (mesh_data s)"
          using \<open>map_of (mesh_data s) k = Some md\<close> refresh_keys [of ?s1 k md] by simp
        have l2: "dict_keys (last_update ?s2) = dict_keys (last_update s)"
          using k1 by simp
        have "fst ` set items \<subseteq> set (dict_keys (last_update ?s2))"
          using rest l2 by simp
        from Cons.IH [OF this, of True] m2 l2 p Some \<open>map_of (mesh_data s) k = Some md\<close>
        show ?thesis by (simp add: unf)
      qed
    qed
  qed
qed

lemma handle_id_updates_keys:
  "dict_keys (mesh_data (snd (handle_id_updates c h act s))) = dict_keys (mesh_data s)
   \<and> dict_keys (last_update (snd (handle_id_updates c h act s))) = dict_keys (last_update s)"
  unfolding handle_id_updates_def
  by (rule id_updates_loop_keys) (auto simp: dict_keys_def)

lemma refresh_keys_present:
  "k \<in> set (dict_keys (mesh_data s))
     \<Longrightarrow> dict_keys (mesh_data (refresh c k md ob sel rd s)) = dict_keys (mesh_data s)"
  by (simp add: refresh_mesh_data keys_update_present)

lemma selection_loop_keys:
  "fst ` set items \<subseteq> set (dict_keys (mesh_data s))
     \<Longrightarrow> dict_keys (mesh_data (snd (selection_loop c act items s))) = dict_keys (mesh_data s)
       \<and> last_update (snd (selection_loop c act items s)) = last_update s"
proof (induction items arbitrary: s)
  case Nil
  then show ?case by simp
next
  case (Cons p items)
  obtain k md where p: "p = (k, md)" by (cases p)
  from Cons.prems p have k: "k \<in> set (dict_keys (mesh_data s))"
    and rest: "fst ` set items \<subseteq> set (dict_keys (mesh_data s))" by auto
  show ?case
  proof (cases "map_of act k")
    case None
    with p show ?thesis by simp
  next
    case (Some ob)
    have m: "dict_keys (mesh_data (refresh c k md ob True False s)) = dict_keys (mesh_data s)"
      using k by (rule refresh_keys_present)
    with rest have "fst ` set items \<subseteq> set (dict_keys (mesh_data (refresh c k md ob True False s)))"
      by simp
    from Cons.IH [OF this] m p Some show ?thesis by simp
  qed
qed

lemma handle_selection_changed_ops_keys:
  "dict_keys (mesh_data (snd (handle_selection_changed_ops c h act s))) = dict_keys (mesh_data s)
   \<and> last_update (snd (handle_selection_changed_ops c h act s)) = last_update s"
proof -
  let ?s1 = "s\<lparr>op := Some (last (operators h))\<rparr>"
  have "fst ` set (mesh_data ?s1) \<subseteq> set (dict_keys (mesh_data ?s1))"
    by (simp add: dict_keys_def)
  from selection_loop_keys [OF this, of c act] show ?thesis
    by (auto simp: handle_selection_changed_ops_def Let_def split: prod.splits option.splits)
qed

lemma visibility_loop_keys:
  "dict_keys (mesh_data (snd (visibility_loop c items s))) = dict_keys (mesh_data s)
   \<and> last_update (snd (visibility_loop c items s)) = last_update s"
proof (induction items arbitrary: s)
  case Nil
  then show ?case by simp
next
  case (Cons p items)
  obtain k ob where p: "p = (k, ob)" by (cases p)
  show ?case
  proof (cases "map_of (mesh_data s) k")
    case None
    with p show ?thesis by simp
  next
    case (Some md)
    with p Cons.IH refresh_keys [OF Some] show ?thesis by simp
  qed
qed

lemma handle_visibility_keys:
  "dict_keys (mesh_data (snd (handle_uv_edtitor_visibility_changed c h act s))) = dict_keys (mesh_data s)
   \<and> last_update (snd (handle_uv_edtitor_visibility_changed c h act s)) = last_update s"
  using visibility_loop_keys [of c act "s\<lparr>uv_editor_visible := uv_editor_visibility h\<rparr>"]
  by (auto simp: handle_uv_edtitor_visibility_changed_def Let_def split: prod.splits option.splits)

lemma heartbeat_handlers_keys:
  "dict_keys (mesh_data (snd (heartbeat_handlers c h act s))) = dict_keys (mesh_data s)
   \<and> dict_keys (last_update (snd (heartbeat_handlers c h act s))) = dict_keys (last_update s)"
proof -
  obtain r1 s1 where v: "handle_uv_edtitor_visibility_changed c h act s = (r1, s1)" by fastforce
  obtain r2 s2 where i: "handle_id_updates c h act s1 = (r2, s2)" by fastforce
  obtain r3 s3 where o: "handle_selection_changed_ops c h act s2 = (r3, s3)" by fastforce
  from handle_visibility_keys [of c h act s] v
  have k1: "dict_keys (mesh_data s1) = dict_keys (mesh_data s)" "last_update s1 = last_update s" by simp_all
  from handle_id_updates_keys [of c h act s1] i
  have k2: "dict_keys (mesh_data s2) = dict_keys (mesh_data s1)"
    "dict_keys (last_update s2) = dict_keys (last_update s1)" by simp_all
  from handle_selection_changed_ops_keys [of c h act s2] o
  have k3: "dict_keys (mesh_data s3) = dict_keys (mesh_data s2)" "last_update s3 = last_update s2" by simp_all
  show ?thesis
    using v i o k1 k2 k3
    by (auto simp: heartbeat_handlers_def split: sum.splits bool.splits)
qed

subsection \<open>free and the lazy creation of snapshots\<close>

lemma free_loop_removes:
  "keys_inv s \<Longrightarrow> set obsolete \<subseteq> set (dict_keys (mesh_data s)) \<Longrightarrow> distinct obsolete
     \<Longrightarrow> fst (free_loop obsolete s) = None
       \<and> keys_inv (snd (free_loop obsolete s))
       \<and> dict_keys (mesh_data (snd (free_loop obsolete s)))
           = filter (\<lambda>k. k \<notin> set obsolete) (dict_keys (mesh_data s))
       \<and> dict_keys (last_update (snd (free_loop obsolete s)))
           = filter (\<lambda>k. k \<notin> set obsolete) (dict_keys (last_update s))"
proof (induction obsolete arbitrary: s)
  case Nil
  then show ?case by simp
next
  case (Cons k ks)
  let ?s2 = "s\<lparr>last_update := AList.delete k (last_update s), mesh_data := AList.delete k (mesh_data s)\<rparr>"
  from Cons.prems have km: "k \<in> set (dict_keys (mesh_data s))"
    and kl: "k \<in> set (dict_keys (last_update s))"
    by (auto simp: keys_inv_def)
  have inv2: "keys_inv ?s2"
    using Cons.prems(1) by (auto simp: keys_inv_def keys_delete distinct_removeAll)
  have sub2: "set ks \<subseteq> set (dict_keys (mesh_data ?s2))"
    using Cons.prems(2,3) by (auto simp: keys_delete)
  have d2: "distinct ks" using Cons.prems(3) by simp
  have step: "free_loop (k # ks) s = free_loop ks ?s2"
    using km kl by (simp add: Let_def)
  have f: "\<And>xs. filter (\<lambda>x. x \<notin> set ks) (removeAll k xs) = filter (\<lambda>x. x \<notin> set (k # ks)) xs"
    by (induct_tac xs) auto
  from Cons.IH [OF inv2 sub2 d2] show ?case
    unfolding step by (simp add: keys_delete f)
qed

lemma free_removes:
  assumes "keys_inv s"
  shows "fst (free h s) = None
     \<and> keys_inv (snd (free h s))
     \<and> dict_keys (mesh_data (snd (free h s)))
         = filter (\<lambda>k. k \<in> obj_name ` set (selected_objects h)) (dict_keys (mesh_data s))
     \<and> dict_keys (last_update (snd (free h s)))
         = filter (\<lambda>k. k \<notin> set (dict_keys (mesh_data s)) \<or> k \<in> obj_name ` set (selected_objects h))
             (dict_keys (last_update s))"
proof -
  let ?obs = "filter (\<lambda>k. k \<notin> obj_name ` set (selected_objects h)) (dict_keys (mesh_data s))"
  have eq: "free h s = free_loop ?obs s"
    by (simp add: free_def keys_get_active_objects)
  have "set ?obs \<subseteq> set (dict_keys (mesh_data s))" by auto
  moreover have "distinct ?obs" using assms by (simp add: keys_inv_def)
  ultimately have r: "fst (free_loop ?obs s) = None
       \<and> keys_inv (snd (free_loop ?obs s))
       \<and> dict_keys (mesh_data (snd (free_loop ?obs s)))
           = filter (\<lambda>k. k \<notin> set ?obs) (dict_keys (mesh_data s))
       \<and> dict_keys (last_update (snd (free_loop ?obs s)))
           = filter (\<lambda>k. k \<notin> set ?obs) (dict_keys (last_update s))"
    using free_loop_removes [OF assms] by blast
  have m: "filter (\<lambda>k. k \<notin> set ?obs) (dict_keys (mesh_data s))
      = filter (\<lambda>k. k \<in> obj_name ` set (selected_objects h)) (dict_keys (mesh_data s))"
    by (rule filter_cong) auto
  have l: "filter (\<lambda>k. k \<notin> set ?obs) (dict_keys (last_update s))
      = filter (\<lambda>k. k \<notin> set (dict_keys (mesh_data s)) \<or> k \<in> obj_name ` set (selected_objects h))
             (dict_keys (last_update s))"
    by (rule filter_cong) auto
  from r show ?thesis unfolding eq m l by simp
qed

lemma free_loop_other_fields:
  "calls (snd (free_loop ks s)) = calls s \<and> renderer_view3d (snd (free_loop ks s)) = renderer_view3d s
   \<and> uv_editor_visible (snd (free_loop ks s)) = uv_editor_visible s \<and> op (snd (free_loop ks s)) = op s"
  by (induction ks arbitrary: s) (simp_all add: Let_def)


lemma lazy_init_keys:
  "keys_inv s \<Longrightarrow>
     keys_inv (lazy_init c ids s)
     \<and> set (dict_keys (mesh_data (lazy_init c ids s))) = set (dict_keys (mesh_data s)) \<union> set ids
     \<and> set (dict_keys (last_update (lazy_init c ids s))) = set (dict_keys (last_update s)) \<union> set ids"
proof (induction ids arbitrary: s)
  case Nil
  then show ?case by simp
next
  case (Cons k ks)
  show ?case
  proof (cases "k \<in> set (dict_keys (mesh_data s))")
    case True
    with Cons.IH [OF Cons.prems] Cons.prems show ?thesis
      by (auto simp: keys_inv_def)
  next
    case False
    let ?s1 = "s\<lparr>mesh_data := AList.update k (Data_new c) (mesh_data s),
             last_update := AList.update k (- 1) (last_update s)\<rparr>"
    have inv1: "keys_inv ?s1"
      using Cons.prems False
      by (auto simp: keys_inv_def dict_keys_def AList.dom_update AList.distinct_update)
    have "set (dict_keys (mesh_data ?s1)) = insert k (set (dict_keys (mesh_data s)))"
      "set (dict_keys (last_update ?s1)) = insert k (set (dict_keys (last_update s)))"
      by (auto simp: dict_keys_def AList.dom_update)
    with Cons.IH [OF inv1] False show ?thesis by simp
  qed
qed

lemma lazy_init_other_fields:
  "calls (lazy_init c ks s) = calls s \<and> renderer_view3d (lazy_init c ks s) = renderer_view3d s
   \<and> uv_editor_visible (lazy_init c ks s) = uv_editor_visible s \<and> op (lazy_init c ks s) = op s"
  by (induction ks arbitrary: s) simp_all

lemma lazy_init_keeps:
  "k \<in> set (dict_keys (mesh_data s))
     \<Longrightarrow> map_of (last_update (lazy_init c ids s)) k = map_of (last_update s) k
       \<and> map_of (mesh_data (lazy_init c ids s)) k = map_of (mesh_data s) k"
proof (induction ids arbitrary: s)
  case Nil
  then show ?case by simp
next
  case (Cons i rest)
  show ?case
  proof (cases "i \<in> set (dict_keys (mesh_data s))")
    case True
    with Cons show ?thesis by simp
  next
    case False
    let ?s1 = "s\<lparr>mesh_data := AList.update i (Data_new c) (mesh_data s),
             last_update := AList.update i (- 1) (last_update s)\<rparr>"
    from False Cons.prems have ne: "i \<noteq> k" by auto
    have "k \<in> set (dict_keys (mesh_data ?s1))"
      using Cons.prems by (simp add: set_keys_update)
    from Cons.IH [OF this] False ne show ?thesis
      by (simp add: AList.update_conv')
  qed
qed

lemma lazy_init_resets:
  "k \<in> set ids \<Longrightarrow> k \<notin> set (dict_keys (mesh_data s))
     \<Longrightarrow> map_of (last_update (lazy_init c ids s)) k = Some (- 1)"
proof (induction ids arbitrary: s)
  case Nil
  then show ?case by simp
next
  case (Cons j js)
  show ?case
  proof (cases "j \<in> set (dict_keys (mesh_data s))")
    case True
    with Cons.prems have "k \<in> set js" by auto
    with True Cons.IH Cons.prems(2) show ?thesis by simp
  next
    case False
    let ?s1 = "s\<lparr>mesh_data := AList.update j (Data_new c) (mesh_data s),
             last_update := AList.update j (- 1) (last_update s)\<rparr>"
    show ?thesis
    proof (cases "j = k")
      case True
      have "k \<in> set (dict_keys (mesh_data ?s1))"
        using True by (simp add: set_keys_update)
      from lazy_init_keeps [OF this, of c js] True False show ?thesis
        by (simp add: AList.update_conv')
    next
      case ne: False
      with Cons.prems have "k \<in> set js" by simp
      moreover have "k \<notin> set (dict_keys (mesh_data ?s1))"
        using ne Cons.prems(2) by (simp add: set_keys_update)
      ultimately show ?thesis
        using Cons.IH [of ?s1] False by simp
    qed
  qed
qed

lemma reconcile_inv:
  assumes "keys_inv s"
  shows "fst (reconcile c h s) = None \<and> keys_inv (snd (reconcile c h s))
    \<and> set (dict_keys (mesh_data (snd (reconcile c h s)))) = obj_name ` set (selected_objects h)"
proof -
  obtain s1 where f: "free h s = (None, s1)"
    using free_removes [OF assms, of h] by (cases "free h s") auto
  from free_removes [OF assms, of h] f
  have inv1: "keys_inv s1"
    and m1: "dict_keys (mesh_data s1) = filter (\<lambda>k. k \<in> obj_name ` set (selected_objects h)) (dict_keys (mesh_data s))"
    by simp_all
  have inv2: "keys_inv (sync_select_mode c h s1)"
    using inv1 by (simp add: keys_inv_def)
  from lazy_init_keys [OF inv2, of c "dict_keys (get_active_objects h)"] m1 f
  show ?thesis
    by (auto simp: reconcile_def keys_get_active_objects)
qed

lemma reconcile_fields:
  assumes "keys_inv s"
  shows "uv_editor_visible (snd (reconcile c h s)) = uv_editor_visible s
     \<and> op (snd (reconcile c h s)) = op s"
proof -
  obtain s1 where f: "free h s = (None, s1)"
    using free_removes [OF assms, of h] by (cases "free h s") auto
  with free_loop_other_fields [of "filter (\<lambda>ident. ident \<notin> set (dict_keys (get_active_objects h))) (dict_keys (mesh_data s))" s]
  have "uv_editor_visible s1 = uv_editor_visible s" "op s1 = op s"
    by (simp_all add: free_def)
  with f show ?thesis
    by (simp add: reconcile_def lazy_init_other_fields)
qed


subsection \<open>The invariant holds in every reachable state\<close>

lemma heartbeat_inv: "keys_inv s \<Longrightarrow> keys_inv (snd (heartbeat c h s))"
proof -
  assume inv: "keys_inv s"
  have inv0: "keys_inv (emit WatchMouse s)" using inv by (simp add: keys_inv_def)
  obtain s1 where r: "reconcile c h (emit WatchMouse s) = (None, s1)"
    using reconcile_inv [OF inv0, of c h] by (cases "reconcile c h (emit WatchMouse s)") auto
  with reconcile_inv [OF inv0, of c h] have inv1: "keys_inv s1" by simp
  have "keys_inv (snd (heartbeat_handlers c h (get_active_objects h) s1))"
    using inv1 heartbeat_handlers_keys [of c h "get_active_objects h" s1]
    by (simp add: keys_inv_def)
  with inv0 r show ?thesis
    by (simp add: heartbeat_def Let_def split: option.splits)
qed

lemma handle_update_inv: "keys_inv s \<Longrightarrow> keys_inv (snd (handle_update h t u s))"
  by (auto simp: handle_update_def keys_inv_def Let_def dict_keys_def AList.dom_update AList.distinct_update
      split: option.splits)

lemma depsgraph_loop_inv: "keys_inv s \<Longrightarrow> keys_inv (snd (depsgraph_loop h us s))"
proof (induction us arbitrary: s)
  case Nil
  then show ?case by simp
next
  case (Cons p us)
  obtain u t where p: "p = (u, t)" by (cases p)
  obtain e s1 where hu: "handle_update h t u s = (e, s1)" by fastforce
  with handle_update_inv [OF Cons.prems, of h t u] have "keys_inv s1" by simp
  with Cons.IH p hu show ?case by (cases e) simp_all
qed

lemma depsgraph_handler_inv: "keys_inv s \<Longrightarrow> keys_inv (snd (depsgraph_handler h us s))"
  by (simp add: depsgraph_handler_def depsgraph_loop_inv) (simp add: keys_inv_def)

lemma reachable_keys_inv: "reachable c s \<Longrightarrow> keys_inv s"
proof (induction rule: reachable.induct)
  case (reach_init renderer_view3d0 renderer_uv0 hs)
  show ?case by (simp add: keys_inv_def init_def dict_keys_def)
next
  case (reach_start s)
  then show ?case by (simp add: keys_inv_def start_def)
next
  case (reach_stop s)
  then show ?case by (simp add: keys_inv_def stop_def Let_def split: sum.splits)
next
  case (reach_heartbeat s h)
  then show ?case by (simp add: heartbeat_inv)
next
  case (reach_depsgraph s h updates)
  then show ?case by (simp add: depsgraph_handler_inv)
qed

subsection \<open>The concrete runs\<close>

lemma orphan_state_reachable: "reachable passive_collab orphan_state"
  unfolding orphan_state_def by (intro reach_depsgraph reach_init)

lemma due_state_reachable: "reachable c (due_state c)"
  unfolding due_state_def by (intro reach_depsgraph reach_heartbeat reach_init)

lemma timer_started_reachable: "reachable c (snd (depsgraph_handler h [] (init r3 ru hs)))"
  by (intro reach_depsgraph reach_init)

lemma orphan_state_value:
  "orphan_state =
     \<lparr> renderer_view3d = False, renderer_uv = False, timer_running = True, uv_select_mode = ''VERTEX'',
       mesh_data = [], last_update = [(''Plane'', fadd 5 float_0_01)], op = None,
       uv_editor_visible = False, depsgraph_update_post = [], calls = [StartTimer] \<rparr>"
  by code_simp

lemma orphan_state_step:
  "snd (handle_update (scene (Some camera) [plane, camera] False 5) 5 (geometry_update ''Plane'')
     (snd (depsgraph_handler (scene (Some camera) [plane, camera] False 5) [] (init False False []))))
   = orphan_state"
  by code_simp

lemma due_state_passive:
  "due_state passive_collab =
     \<lparr> renderer_view3d = False, renderer_uv = False, timer_running = True, uv_select_mode = ''VERTEX'',
       mesh_data = [(''Cube'', 0)], last_update = [(''Cube'', fadd 5 float_0_01)], op = None,
       uv_editor_visible = False, depsgraph_update_post = [], calls = [WatchMouse, StartTimer] \<rparr>"
  by code_simp

subsection \<open>The key sets of the two mappings\<close>

text \<open>
  C1 as stated fails: after the notification that starts the timer and one
  notification for the selected mesh \<^verbatim>\<open>Plane\<close>, which no heartbeat has seen, the mapping
  of timestamps has the key \<^verbatim>\<open>Plane\<close> and the mapping of snapshots is empty.
\<close>

theorem timestamp_without_snapshot_counterexample:
  "reachable passive_collab orphan_state
   \<and> dict_keys (last_update orphan_state) = [''Plane'']
   \<and> dict_keys (mesh_data orphan_state) = []
   \<and> set (dict_keys (last_update orphan_state)) \<noteq> set (dict_keys (mesh_data orphan_state))"
  using orphan_state_reachable by (simp add: orphan_state_value dict_keys_def)

text \<open>
  C1, amended. In every reachable state each identity with a snapshot has a
  timestamp (the converse can fail, since \<^verbatim>\<open>depsgraph_handler\<close> creates the timestamp of
  a selected mesh that has no snapshot yet). \<^verbatim>\<open>free\<close> raises nothing there and removes
  the same identities from both mappings: those that have a snapshot and are not
  selected any more.
\<close>

theorem snapshot_keys_have_timestamps:
  assumes "reachable c s"
  shows "set (dict_keys (mesh_data s)) \<subseteq> set (dict_keys (last_update s))
     \<and> fst (free h s) = None
     \<and> dict_keys (mesh_data (snd (free h s)))
         = filter (\<lambda>k. k \<in> obj_name ` set (selected_objects h)) (dict_keys (mesh_data s))
     \<and> dict_keys (last_update (snd (free h s)))
         = filter (\<lambda>k. k \<notin> set (dict_keys (mesh_data s)) \<or> k \<in> obj_name ` set (selected_objects h))
             (dict_keys (last_update s))"
  using free_removes [OF reachable_keys_inv [OF assms], of h] reachable_keys_inv [OF assms]
  by (simp add: keys_inv_def)

theorem snapshot_keys_have_timestamps_witness:
  "set (dict_keys (mesh_data (due_state passive_collab)))
      \<subseteq> set (dict_keys (last_update (due_state passive_collab)))
   \<and> dict_keys (mesh_data (due_state passive_collab)) = [''Cube'']
   \<and> dict_keys (mesh_data (snd (free (scene (Some plane) [plane] False 6) (due_state passive_collab)))) = []
   \<and> dict_keys (last_update (snd (free (scene (Some plane) [plane] False 6) (due_state passive_collab)))) = []"
  using snapshot_keys_have_timestamps [OF due_state_reachable, of passive_collab "scene (Some plane) [plane] False 6"]
  by (simp add: due_state_passive dict_keys_def scene_def plane_def)

subsection \<open>Deselected objects\<close>






subsection \<open>The UV editor becomes visible\<close>





subsection \<open>A notification before the first heartbeat that sees the object\<close>

lemma id_updates_loop_sentinel:
  "map_of (last_update s) k = Some (- 1)
     \<Longrightarrow> map_of (last_update (snd (id_updates_loop c t act items res s))) k = Some (- 1)"
proof (induction items arbitrary: res s)
  case Nil
  then show ?case by simp
next
  case (Cons p items)
  obtain j lu where p: "p = (j, lu)" by (cases p)
  show ?case
  proof (cases "t > lu \<and> lu > 0")
    case False
    with Cons p show ?thesis by (simp add: id_updates_loop_skip)
  next
    case True
    then have due: "t > lu" "lu > 0" by simp_all
    let ?s1 = "s\<lparr>last_update := AList.update j (- 1) (last_update s)\<rparr>"
    have k1: "map_of (last_update ?s1) k = Some (- 1)"
      using Cons.prems by (simp add: AList.update_conv')
    show ?thesis
    proof (cases "map_of (mesh_data s) j")
      case None
      with p k1 show ?thesis by (simp add: id_updates_loop_due [OF due])
    next
      case (Some md)
      show ?thesis
      proof (cases "map_of act j")
        case None
        with p k1 Some show ?thesis by (simp add: id_updates_loop_due [OF due])
      next
        case (Some ob)
        have "map_of (last_update (refresh c j md ob False True ?s1)) k = Some (- 1)"
          using k1 by simp
        from Cons.IH [OF this, of True] p Some \<open>map_of (mesh_data s) j = Some md\<close>
        show ?thesis by (simp add: id_updates_loop_due [OF due])
      qed
    qed
  qed
qed

lemma heartbeat_handlers_sentinel:
  assumes "map_of (last_update s) k = Some (- 1)"
  shows "map_of (last_update (snd (heartbeat_handlers c h act s))) k = Some (- 1)"
proof -
  obtain r1 s1 where v: "handle_uv_edtitor_visibility_changed c h act s = (r1, s1)" by fastforce
  obtain r2 s2 where i: "handle_id_updates c h act s1 = (r2, s2)" by fastforce
  obtain r3 s3 where o: "handle_selection_changed_ops c h act s2 = (r3, s3)" by fastforce
  from handle_visibility_keys [of c h act s] v assms
  have k1: "map_of (last_update s1) k = Some (- 1)" by simp
  from id_updates_loop_sentinel [OF k1, of c "now h" act "last_update s1" False] i
  have k2: "map_of (last_update s2) k = Some (- 1)" by (simp add: handle_id_updates_def)
  from handle_selection_changed_ops_keys [of c h act s2] o k2
  have k3: "map_of (last_update s3) k = Some (- 1)" by simp
  show ?thesis
    using v i o k1 k2 k3
    by (auto simp: heartbeat_handlers_def split: sum.splits bool.splits)
qed

lemma handle_update_stores:
  assumes "\<not> can_skip_depsgraph h u" and "upd_id u = Some i"
  shows "fst (handle_update h t u s) = None
     \<and> map_of (last_update (snd (handle_update h t u s))) (id_name i) \<in> {Some (fadd (round_double t) float_0_01), Some (fadd (round_double t) float_0_1)}
     \<and> mesh_data (snd (handle_update h t u s)) = mesh_data s"
proof (cases "id_name i \<in> set (dict_keys (last_update s))")
  case True
  from map_of_keys_Some [OF this] obtain lu where "map_of (last_update s) (id_name i) = Some lu" ..
  with assms True show ?thesis
    by (simp add: handle_update_def AList.update_conv' Let_def)
next
  case False
  with assms show ?thesis
    by (simp add: handle_update_def AList.update_conv' Let_def)
qed

text \<open>
  C6 as stated fails: the next heartbeat need not reach the creation of snapshots.
  With a camera as the active object the heartbeat returns at once, and the
  timestamp that the notification stored for \<^verbatim>\<open>Plane\<close> at time 5 is still there.
\<close>

theorem pending_survives_tick_without_mesh_counterexample:
  "\<not> can_skip_depsgraph (scene (Some camera) [plane, camera] False 5) (geometry_update ''Plane'')
   \<and> ''Plane'' \<notin> set (dict_keys (mesh_data orphan_state))
   \<and> map_of (last_update orphan_state) ''Plane'' = Some (fadd 5 float_0_01)
   \<and> fst (heartbeat passive_collab (scene (Some camera) [plane, camera] False 6) orphan_state) = None
   \<and> map_of (last_update (snd (heartbeat passive_collab (scene (Some camera) [plane, camera] False 6) orphan_state)))
        ''Plane'' = Some (fadd 5 float_0_01)"
  by code_simp

text \<open>
  C6, amended. A record that is not skipped stores the float sum \<^verbatim>\<open>t + 0.01\<close> or
  \<^verbatim>\<open>t + 0.1\<close> for its identity. If that identity has no snapshot, then on a heartbeat with an active
  mesh object on which the identity is selected, the state in which the handlers
  start has the sentinel \<open>- 1\<close> for it, so it is not due, and it still has the
  sentinel when the heartbeat ends: the scheduled refresh is dropped.
\<close>

theorem lazy_init_discards_pending:
  assumes "reachable c s0"
    and "\<not> can_skip_depsgraph h0 u" and "upd_id u = Some i"
    and "id_name i \<notin> set (dict_keys (mesh_data s0))"
    and "active_object h = Some ob" and "obj_type ob = ''MESH''"
    and "id_name i \<in> obj_name ` set (selected_objects h)"
  shows "map_of (last_update (snd (handle_update h0 t u s0))) (id_name i) \<in> {Some (fadd (round_double t) float_0_01), Some (fadd (round_double t) float_0_1)}
     \<and> fst (reconcile c h (emit WatchMouse (snd (handle_update h0 t u s0)))) = None
     \<and> map_of (last_update (snd (reconcile c h (emit WatchMouse (snd (handle_update h0 t u s0)))))) (id_name i)
         = Some (- 1)
     \<and> map_of (last_update (snd (heartbeat c h (snd (handle_update h0 t u s0))))) (id_name i) = Some (- 1)"
proof -
  let ?s = "snd (handle_update h0 t u s0)"
  let ?sw = "emit WatchMouse ?s"
  note st = handle_update_stores [OF assms(2,3), of t s0]
  have inv: "keys_inv ?s"
    using reachable_keys_inv [OF assms(1)] by (rule handle_update_inv)
  then have inv0: "keys_inv ?sw" by (simp add: keys_inv_def)
  have fresh: "id_name i \<notin> set (dict_keys (mesh_data ?sw))"
    using st assms(4) by simp
  obtain s1 where f: "free h ?sw = (None, s1)"
    using free_removes [OF inv0, of h] by (cases "free h ?sw") auto
  from free_removes [OF inv0, of h] f fresh
  have "id_name i \<notin> set (dict_keys (mesh_data s1))" by simp
  then have "id_name i \<notin> set (dict_keys (mesh_data (sync_select_mode c h s1)))" by simp
  moreover have "id_name i \<in> set (dict_keys (get_active_objects h))"
    using assms(7) by (simp add: keys_get_active_objects)
  ultimately have "map_of (last_update (lazy_init c (dict_keys (get_active_objects h)) (sync_select_mode c h s1))) (id_name i) = Some (- 1)"
    by (rule lazy_init_resets [rotated])
  with f have rec: "fst (reconcile c h ?sw) = None"
    "map_of (last_update (snd (reconcile c h ?sw))) (id_name i) = Some (- 1)"
    by (simp_all add: reconcile_def)
  obtain s3 where r: "reconcile c h ?sw = (None, s3)"
    using rec(1) by (cases "reconcile c h ?sw") auto
  have hb: "heartbeat c h ?s = heartbeat_handlers c h (get_active_objects h) s3"
    using assms(5,6) r by (simp add: heartbeat_def)
  from rec(2) r have "map_of (last_update s3) (id_name i) = Some (- 1)" by simp
  from heartbeat_handlers_sentinel [OF this, of c h "get_active_objects h"] hb
  have "map_of (last_update (snd (heartbeat c h ?s))) (id_name i) = Some (- 1)" by simp
  with st rec show ?thesis by simp
qed

lemma lost_update_value:
  "heartbeat passive_collab (scene (Some plane) [plane] False 6) orphan_state =
     (None,
      \<lparr> renderer_view3d = False, renderer_uv = False, timer_running = True, uv_select_mode = ''VERTEX'',
        mesh_data = [(''Plane'', 0)], last_update = [(''Plane'', - 1)], op = None,
        uv_editor_visible = False, depsgraph_update_post = [], calls = [StartTimer, WatchMouse] \<rparr>)"
  by code_simp

theorem lazy_init_discards_pending_witness:
  "map_of (last_update orphan_state) ''Plane'' = Some (fadd 5 float_0_01)
   \<and> ''Plane'' \<notin> set (dict_keys (mesh_data orphan_state))
   \<and> fst (heartbeat passive_collab (scene (Some plane) [plane] False 6) orphan_state) = None
   \<and> map_of (last_update (snd (heartbeat passive_collab (scene (Some plane) [plane] False 6) orphan_state)))
        ''Plane'' = Some (- 1)
   \<and> calls (snd (heartbeat passive_collab (scene (Some plane) [plane] False 6) orphan_state))
        = [StartTimer, WatchMouse]"
proof -
  let ?h0 = "scene (Some camera) [plane, camera] False 5"
  let ?s0 = "snd (depsgraph_handler ?h0 [] (init False False [])) :: (nat, bool) updater"
  have q: "\<not> can_skip_depsgraph ?h0 (geometry_update ''Plane'')"
    by code_simp
  have i: "upd_id (geometry_update ''Plane'') = Some \<lparr> id_name = ''Plane'', id_type = Some ''MESH'' \<rparr>"
    by (simp add: geometry_update_def)
  have f: "id_name \<lparr> id_name = ''Plane'', id_type = Some ''MESH'' \<rparr> \<notin> set (dict_keys (mesh_data ?s0))"
    by (simp add: depsgraph_handler_def init_def emit_def dict_keys_def)
  have a: "active_object (scene (Some plane) [plane] False 6) = Some plane"
    by (simp add: scene_def)
  have m: "obj_type plane = ''MESH''"
    by (simp add: plane_def)
  have sel: "id_name \<lparr> id_name = ''Plane'', id_type = Some ''MESH'' \<rparr>
      \<in> obj_name ` set (selected_objects (scene (Some plane) [plane] False 6))"
    by (simp add: scene_def plane_def)
  have p: "map_of (last_update orphan_state) ''Plane'' = Some (fadd 5 float_0_01)
      \<and> ''Plane'' \<notin> set (dict_keys (mesh_data orphan_state))"
    by (simp add: orphan_state_value dict_keys_def)
  from lazy_init_discards_pending [where c = passive_collab and t = 5, OF timer_started_reachable q i f a m sel] p show ?thesis
    by (simp add: orphan_state_step lost_update_value)
qed

subsection \<open>The UV editor stays invisible\<close>









subsection \<open>Due timestamps\<close>

lemma id_updates_loop_processes:
  "distinct (map fst items)
     \<Longrightarrow> \<forall>k \<in> fst ` set items.
           (\<exists>md. map_of (mesh_data s) k = Some md \<and> map_of (mesh_data s1) k = Some md)
           \<and> (\<exists>ob. map_of act k = Some ob)
     \<Longrightarrow> fst (id_updates_loop c t act items res s) = Inr (res \<or> (\<exists>(k, lu) \<in> set items. t > lu \<and> lu > 0))
       \<and> calls (snd (id_updates_loop c t act items res s))
            = calls s @ concat (map (due_refresh_calls c t act s1) items)
       \<and> op (snd (id_updates_loop c t act items res s)) = op s
       \<and> (\<forall>k. map_of (last_update (snd (id_updates_loop c t act items res s))) k
              = (if \<exists>lu. (k, lu) \<in> set items \<and> t > lu \<and> lu > 0 then Some (- 1)
                 else map_of (last_update s) k))"
proof (induction items arbitrary: res s)
  case Nil
  then show ?case by simp
next
  case (Cons p items)
  obtain j lu where p: "p = (j, lu)" by (cases p)
  have d: "distinct (map fst items)" and nj: "j \<notin> fst ` set items"
    using Cons.prems(1) p by auto
  show ?case
  proof (cases "t > lu \<and> lu > 0")
    case False
    have pre: "\<forall>k \<in> fst ` set items.
           (\<exists>md. map_of (mesh_data s) k = Some md \<and> map_of (mesh_data s1) k = Some md)
           \<and> (\<exists>ob. map_of act k = Some ob)"
      using Cons.prems(2) by simp
    have nd: "\<And>k. (\<exists>lu'. (k, lu') \<in> set (p # items) \<and> t > lu' \<and> lu' > 0)
                \<longleftrightarrow> (\<exists>lu'. (k, lu') \<in> set items \<and> t > lu' \<and> lu' > 0)"
      using False p by auto
    have ex: "(\<exists>(k, lu') \<in> set (p # items). t > lu' \<and> lu' > 0)
                \<longleftrightarrow> (\<exists>(k, lu') \<in> set items. t > lu' \<and> lu' > 0)"
      using False p by auto
    have dc: "due_refresh_calls c t act s1 p = []"
      using False p by (auto simp: due_refresh_calls_def)
    from Cons.IH [OF d pre, of res] show ?thesis
      unfolding nd ex using False p dc by (simp add: id_updates_loop_skip)
  next
    case True
    then have due: "t > lu" "lu > 0" by simp_all
    from Cons.prems(2) p obtain md ob where md: "map_of (mesh_data s) j = Some md"
      "map_of (mesh_data s1) j = Some md" and ob: "map_of act j = Some ob"
      by auto
    let ?s1 = "s\<lparr>last_update := AList.update j (- 1) (last_update s)\<rparr>"
    let ?s2 = "refresh c j md ob False True ?s1"
    have step: "id_updates_loop c t act (p # items) res s = id_updates_loop c t act items True ?s2"
      using p md ob by (simp add: id_updates_loop_due [OF due])
    have pre: "\<forall>k \<in> fst ` set items.
           (\<exists>md. map_of (mesh_data ?s2) k = Some md \<and> map_of (mesh_data s1) k = Some md)
           \<and> (\<exists>ob. map_of act k = Some ob)"
    proof
      fix k assume k: "k \<in> fst ` set items"
      with nj have "k \<noteq> j" by auto
      then have "map_of (mesh_data ?s2) k = map_of (mesh_data s) k"
        by (simp add: refresh_mesh_data AList.update_conv')
      with Cons.prems(2) k show "(\<exists>md. map_of (mesh_data ?s2) k = Some md \<and> map_of (mesh_data s1) k = Some md)
           \<and> (\<exists>ob. map_of act k = Some ob)"
        by auto
    qed
    have dc: "due_refresh_calls c t act s1 p
        = MeshUpdate j False (fst (Data_update c md ob False))
            # (if fst (Data_update c md ob False) then [View3dUpdate j, UvUpdate j, TagRedraw] else [])"
      using True p md ob by (simp add: due_refresh_calls_def forced_refresh_calls_def)
    have cs: "calls ?s2 = calls s @ due_refresh_calls c t act s1 p"
      unfolding dc by (simp add: refresh_calls)
    have lu2: "\<And>k. map_of (last_update ?s2) k = (if k = j then Some (- 1) else map_of (last_update s) k)"
      by (simp add: AList.update_conv')
    have nd: "\<And>k. (\<exists>lu'. (k, lu') \<in> set (p # items) \<and> t > lu' \<and> lu' > 0)
                \<longleftrightarrow> k = j \<or> (\<exists>lu'. (k, lu') \<in> set items \<and> t > lu' \<and> lu' > 0)"
      using True p by auto
    have ex: "(\<exists>(k, lu') \<in> set (p # items). t > lu' \<and> lu' > 0)"
      using True p by auto
    from Cons.IH [OF d pre, of True] show ?thesis
      unfolding step nd using ex cs lu2 by (auto simp: refresh_fields)
  qed
qed

lemma reconcile_last_update_keys:
  assumes "keys_inv s"
  shows "set (dict_keys (last_update (snd (reconcile c h s))))
     = {k \<in> set (dict_keys (last_update s)).
          k \<notin> set (dict_keys (mesh_data s)) \<or> k \<in> obj_name ` set (selected_objects h)}
       \<union> obj_name ` set (selected_objects h)"
proof -
  obtain s1 where f: "free h s = (None, s1)"
    using free_removes [OF assms, of h] by (cases "free h s") auto
  from free_removes [OF assms, of h] f
  have inv1: "keys_inv s1"
    and l1: "dict_keys (last_update s1)
         = filter (\<lambda>k. k \<notin> set (dict_keys (mesh_data s)) \<or> k \<in> obj_name ` set (selected_objects h))
             (dict_keys (last_update s))"
    by simp_all
  have inv2: "keys_inv (sync_select_mode c h s1)"
    using inv1 by (simp add: keys_inv_def)
  from lazy_init_keys [OF inv2, of c "dict_keys (get_active_objects h)"] l1 f
  show ?thesis
    by (auto simp: reconcile_def keys_get_active_objects)
qed

text \<open>
  When every identity with a timestamp has a snapshot before the heartbeat, the UV
  editor does not change its visibility and some timestamp is due, the heartbeat
  raises nothing and ends after \<open>handle_id_updates\<close>: after the visibility handler
  the calls are exactly one refresh with \<^verbatim>\<open>selectionOnly = False\<close> for each due entry,
  pushed and redrawn when it reports a change; the due timestamps are the sentinel
  afterwards and the others are unchanged; the last operator seen is not touched.
\<close>

lemma due_entries_processed:
  assumes "reachable c s" and "active_object h = Some ob" and "obj_type ob = ''MESH''"
    and "uv_editor_visible s = uv_editor_visibility h"
    and "set (dict_keys (last_update s)) \<subseteq> set (dict_keys (mesh_data s))"
    and "\<exists>(k, lu) \<in> set (last_update (snd (reconcile c h (emit WatchMouse s)))). now h > lu \<and> lu > 0"
  shows "fst (heartbeat c h s) = None
     \<and> calls (snd (heartbeat c h s))
         = calls (snd (handle_uv_edtitor_visibility_changed c h (get_active_objects h)
                    (snd (reconcile c h (emit WatchMouse s)))))
           @ concat (map (due_refresh_calls c (now h) (get_active_objects h)
                            (snd (reconcile c h (emit WatchMouse s))))
                       (last_update (snd (reconcile c h (emit WatchMouse s)))))
     \<and> (\<forall>k. map_of (last_update (snd (heartbeat c h s))) k
            = (if \<exists>lu. (k, lu) \<in> set (last_update (snd (reconcile c h (emit WatchMouse s))))
                        \<and> now h > lu \<and> lu > 0
               then Some (- 1)
               else map_of (last_update (snd (reconcile c h (emit WatchMouse s)))) k))
     \<and> op (snd (heartbeat c h s)) = op s"
proof -
  let ?sw = "emit WatchMouse s"
  let ?act = "get_active_objects h"
  let ?t = "now h"
  have inv0: "keys_inv ?sw"
    using reachable_keys_inv [OF assms(1)] by (simp add: keys_inv_def)
  obtain s1 where r: "reconcile c h ?sw = (None, s1)"
    using reconcile_inv [OF inv0, of c h] by (cases "reconcile c h ?sw") auto
  from reconcile_inv [OF inv0, of c h] r
  have inv1: "keys_inv s1"
    and m1: "set (dict_keys (mesh_data s1)) = obj_name ` set (selected_objects h)" by simp_all
  from reconcile_last_update_keys [OF inv0, of c h] r assms(5) m1
  have l1: "set (dict_keys (last_update s1)) \<subseteq> set (dict_keys (mesh_data s1))" by auto
  from reconcile_fields [OF inv0, of c h] r assms(4)
  have v1: "uv_editor_visible s1 = uv_editor_visibility h" and o1: "op s1 = op s" by simp_all
  define s2 where "s2 = snd (handle_uv_edtitor_visibility_changed c h ?act s1)"
  have vis: "handle_uv_edtitor_visibility_changed c h ?act s1 = (Inr False, s2)"
    using v1 by (simp add: s2_def handle_uv_edtitor_visibility_changed_def)
  have f2: "mesh_data s2 = mesh_data s1" "last_update s2 = last_update s1" "op s2 = op s1"
    using v1 by (simp_all add: s2_def handle_uv_edtitor_visibility_changed_def)
  have dist: "distinct (map fst (last_update s1))"
    using inv1 by (simp add: keys_inv_def dict_keys_def)
  have pre: "\<forall>k \<in> fst ` set (last_update s1).
           (\<exists>md. map_of (mesh_data s2) k = Some md \<and> map_of (mesh_data s1) k = Some md)
           \<and> (\<exists>ob. map_of ?act k = Some ob)"
  proof
    fix k assume "k \<in> fst ` set (last_update s1)"
    then have km: "k \<in> set (dict_keys (mesh_data s1))"
      using l1 by (auto simp: dict_keys_def)
    then have "k \<in> set (dict_keys ?act)"
      using m1 by (simp add: keys_get_active_objects)
    from map_of_keys_Some [OF km] map_of_keys_Some [OF this]
    show "(\<exists>md. map_of (mesh_data s2) k = Some md \<and> map_of (mesh_data s1) k = Some md)
           \<and> (\<exists>ob. map_of ?act k = Some ob)"
      unfolding f2 by simp
  qed
  note loop = id_updates_loop_processes [OF dist pre, of c ?t False]
  obtain s3 where i: "handle_id_updates c h ?act s2 = (Inr True, s3)"
    using loop assms(6) r unfolding handle_id_updates_def f2
    by (cases "id_updates_loop c ?t ?act (last_update s1) False s2") auto
  have hb: "heartbeat c h s = (None, s3)"
    using assms(2,3) r vis i by (simp add: heartbeat_def heartbeat_handlers_def)
  from loop i have
    c3: "calls s3 = calls s2 @ concat (map (due_refresh_calls c ?t ?act s1) (last_update s1))"
    and o3: "op s3 = op s2"
    and l3: "\<forall>k. map_of (last_update s3) k
              = (if \<exists>lu. (k, lu) \<in> set (last_update s1) \<and> ?t > lu \<and> lu > 0 then Some (- 1)
                 else map_of (last_update s2) k)"
    unfolding handle_id_updates_def f2 by simp_all
  have l3': "\<forall>k. map_of (last_update s3) k
              = (if \<exists>lu. (k, lu) \<in> set (last_update s1) \<and> ?t > lu \<and> lu > 0 then Some (- 1)
                 else map_of (last_update s1) k)"
    using l3 unfolding f2 .
  have "fst (heartbeat c h s) = None"
    using hb by simp
  moreover have "calls (snd (heartbeat c h s))
         = calls (snd (handle_uv_edtitor_visibility_changed c h ?act (snd (reconcile c h ?sw))))
           @ concat (map (due_refresh_calls c ?t ?act (snd (reconcile c h ?sw)))
                       (last_update (snd (reconcile c h ?sw))))"
    using c3 by (simp add: hb r vis)
  moreover have "\<forall>k. map_of (last_update (snd (heartbeat c h s))) k
            = (if \<exists>lu. (k, lu) \<in> set (last_update (snd (reconcile c h ?sw))) \<and> ?t > lu \<and> lu > 0
               then Some (- 1)
               else map_of (last_update (snd (reconcile c h ?sw))) k)"
    by (simp only: hb r snd_conv l3' simp_thms)
  moreover have "op (snd (heartbeat c h s)) = op s"
    using o3 o1 f2 by (simp add: hb)
  ultimately show ?thesis by blast
qed

subsection \<open>A due timestamp without a snapshot\<close>

text \<open>
  C2 fails on the code. \<^verbatim>\<open>Plane\<close> has a due timestamp and no snapshot, and is not
  selected any more when the heartbeat runs with \<^verbatim>\<open>Cube\<close> selected and active at
  time 6: \<open>handle_id_updates\<close> clears the timestamp of \<^verbatim>\<open>Plane\<close> and then raises
  \<^verbatim>\<open>KeyError\<close> at \<^verbatim>\<open>self.mesh_data[id]\<close>; nothing is refreshed or pushed.
\<close>

theorem orphan_due_entry_raises:
  "heartbeat passive_collab (scene (Some cube) [cube] False 6) orphan_state =
    (Some (KeyError ''Plane''),
     \<lparr> renderer_view3d = False, renderer_uv = False, timer_running = True,
       uv_select_mode = ''VERTEX'', mesh_data = [(''Cube'', 0)],
       last_update = [(''Plane'', - 1), (''Cube'', - 1)], op = None,
       uv_editor_visible = False, depsgraph_update_post = [], calls = [StartTimer, WatchMouse] \<rparr>)"
  by code_simp

end
